theory Spec2Isabelle
  imports Complex_Main "HOL-Library.Word" "HOL-Library.Monad_Syntax" "HOL-Library.Log_Nat"
begin

section \<open>Numbers of the program\<close>

subsection \<open>Doubles\<close>

text \<open>
  A C++ \<open>double\<close> is a finite number, one of the two infinities, or NaN. A finite double
  is modelled by the real number it denotes, without a negative zero. The operations
  \<open>dadd\<close>, \<open>dmul\<close> and \<open>ddiv\<close> give the exact sum, product and quotient of finite
  values, and the special values follow the IEEE rules (anything with NaN is NaN,
  \<open>inf - inf\<close>, \<open>0 * inf\<close>, \<open>0 / 0\<close> and \<open>inf / inf\<close> are NaN, a non-zero finite value
  divided by zero is an infinity, every comparison with NaN is false). The rounding of a
  result to the binary64 format is the function \<open>fl\<close> of the next subsection.
\<close>

datatype double = Finite real | PInf | NInf | NaN

fun isnan :: "double \<Rightarrow> bool" where
  "isnan NaN = True"
| "isnan _ = False"

fun isinf :: "double \<Rightarrow> bool" where
  "isinf PInf = True"
| "isinf NInf = True"
| "isinf _ = False"

fun isfinite :: "double \<Rightarrow> bool" where
  "isfinite (Finite x) = True"
| "isfinite _ = False"

fun dneg :: "double \<Rightarrow> double" where
  "dneg (Finite x) = Finite (- x)"
| "dneg PInf = NInf"
| "dneg NInf = PInf"
| "dneg NaN = NaN"

fun dadd :: "double \<Rightarrow> double \<Rightarrow> double" where
  "dadd (Finite x) (Finite y) = Finite (x + y)"
| "dadd NaN _ = NaN"
| "dadd _ NaN = NaN"
| "dadd PInf NInf = NaN"
| "dadd NInf PInf = NaN"
| "dadd PInf _ = PInf"
| "dadd _ PInf = PInf"
| "dadd NInf _ = NInf"
| "dadd _ NInf = NInf"

definition dsub :: "double \<Rightarrow> double \<Rightarrow> double" where
  "dsub a b = dadd a (dneg b)"

text \<open>The sign of a non-NaN double: \<open>True\<close> for a value that is not negative.\<close>

fun dnonneg :: "double \<Rightarrow> bool" where
  "dnonneg (Finite x) = (0 \<le> x)"
| "dnonneg PInf = True"
| "dnonneg NInf = False"
| "dnonneg NaN = True"

definition signed_inf :: "bool \<Rightarrow> double" where
  "signed_inf pos = (if pos then PInf else NInf)"

fun dmul :: "double \<Rightarrow> double \<Rightarrow> double" where
  "dmul (Finite x) (Finite y) = Finite (x * y)"
| "dmul NaN _ = NaN"
| "dmul _ NaN = NaN"
| "dmul a b =
     (if a = Finite 0 \<or> b = Finite 0 then NaN else signed_inf (dnonneg a = dnonneg b))"

fun ddiv :: "double \<Rightarrow> double \<Rightarrow> double" where
  "ddiv (Finite x) (Finite y) =
     (if y \<noteq> 0 then Finite (x / y)
      else if x = 0 then NaN
      else signed_inf (0 < x))"
| "ddiv NaN _ = NaN"
| "ddiv _ NaN = NaN"
| "ddiv (Finite x) _ = Finite 0"
| "ddiv a (Finite y) = signed_inf (dnonneg a = (0 \<le> y))"
| "ddiv _ _ = NaN"

fun dless :: "double \<Rightarrow> double \<Rightarrow> bool" where
  "dless (Finite x) (Finite y) = (x < y)"
| "dless NaN _ = False"
| "dless _ NaN = False"
| "dless NInf NInf = False"
| "dless NInf _ = True"
| "dless _ NInf = False"
| "dless PInf _ = False"
| "dless _ PInf = True"

fun dle :: "double \<Rightarrow> double \<Rightarrow> bool" where
  "dle (Finite x) (Finite y) = (x \<le> y)"
| "dle NaN _ = False"
| "dle _ NaN = False"
| "dle NInf _ = True"
| "dle _ NInf = False"
| "dle _ PInf = True"
| "dle PInf _ = False"

fun dsqrt :: "double \<Rightarrow> double" where
  "dsqrt (Finite x) = (if 0 \<le> x then Finite (sqrt x) else NaN)"
| "dsqrt PInf = PInf"
| "dsqrt NInf = NaN"
| "dsqrt NaN = NaN"

subsection \<open>Rounding to binary64\<close>

text \<open>
  The result of a double operation is the exact result rounded to the nearest number of
  the binary64 format, ties to the even significand. The numbers of the format are the
  multiples of \<open>2^-1074\<close> with a significand of at most 53 bits, below \<open>2^1024\<close>. So
  \<open>round_mag x\<close>, the magnitude of the rounded \<open>x\<close> in units of \<open>2^-1074\<close>, is the
  multiple of \<open>2^k\<close> nearest to \<open>\<bar>x\<bar> * 2^1074\<close>, where \<open>k\<close> is the number of bits by
  which the integer part of that number exceeds 53 bits; a magnitude of \<open>2^1024\<close> or more
  overflows to an infinity. The model rounds where the source converts a double back to
  an integer, in the advance of the step time, and in \<open>updateStatistics64\<close>, the
  statistics update on a sample sequence; the durations and the statistics inside
  \<open>sleep\<close> are kept exact.
\<close>

definition round_even :: "real \<Rightarrow> int" where
  "round_even y =
     (let f = \<lfloor>y\<rfloor>; d = y - real_of_int f
      in if d < 1 / 2 then f else if 1 / 2 < d then f + 1 else if even f then f else f + 1)"

definition round_mag :: "real \<Rightarrow> int" where
  "round_mag x =
     (let X = \<bar>x\<bar> * 2 ^ 1074; k = nat (bitlen \<lfloor>X\<rfloor> - 53)
      in round_even (X / 2 ^ k) * 2 ^ k)"

definition round64 :: "real \<Rightarrow> double" where
  "round64 x =
     (if 2 ^ 2098 \<le> round_mag x then signed_inf (0 < x)
      else Finite (sgn x * real_of_int (round_mag x) / 2 ^ 1074))"

fun fl :: "double \<Rightarrow> double" where
  "fl (Finite x) = round64 x"
| "fl PInf = PInf"
| "fl NInf = NInf"
| "fl NaN = NaN"

subsection \<open>Signed and unsigned integers\<close>

text \<open>
  \<open>time_t\<close> and \<open>long\<close>, the types of the two fields of a \<open>timespec\<close>, are signed 64-bit
  integers. They are modelled as \<open>int\<close>, and every operation on them checks that its result
  is in range: signed overflow and the conversion of a double that does not fit are
  undefined in C++, and the model returns \<open>None\<close> there. \<open>unsigned int\<close> counters are
  32-bit words, whose arithmetic wraps around.
\<close>

definition in_long :: "int \<Rightarrow> bool" where
  "in_long i \<longleftrightarrow> - (2 ^ 63) \<le> i \<and> i < 2 ^ 63"

definition long_of :: "int \<Rightarrow> int option" where
  "long_of i = (if in_long i then Some i else None)"

text \<open>Conversion of a double to an integer drops the fraction (rounds towards zero).\<close>

definition truncate_real :: "real \<Rightarrow> int" where
  "truncate_real x = (if 0 \<le> x then \<lfloor>x\<rfloor> else \<lceil>x\<rceil>)"

fun double_to_long :: "double \<Rightarrow> int option" where
  "double_to_long (Finite x) = long_of (truncate_real x)"
| "double_to_long _ = None"

definition double_of_long :: "int \<Rightarrow> double" where
  "double_of_long i = Finite (real_of_int i)"

definition double_of_uint :: "32 word \<Rightarrow> double" where
  "double_of_uint w = Finite (real (unat w))"

text \<open>Integer division and remainder of C++ round towards zero.\<close>

definition cdiv :: "int \<Rightarrow> int \<Rightarrow> int" where
  "cdiv a b = (if (a < 0) = (b < 0) then \<bar>a\<bar> div \<bar>b\<bar> else - (\<bar>a\<bar> div \<bar>b\<bar>))"

definition crem :: "int \<Rightarrow> int \<Rightarrow> int" where
  "crem a b = a - b * cdiv a b"

section \<open>The data of a Rate\<close>

record timespec =
  tv_sec :: int
  tv_nsec :: int

text \<open>
  Modelled from the spec: the constants \<open>NSecPerSec_\<close> and \<open>SecPerNSec_\<close> and the types of
  the members are declared in \<open>Rate.hpp\<close>, which is not among the sources. The spec speaks
  of nanoseconds carried into seconds; the getters of the counters return \<open>unsigned int\<close>.
\<close>

definition NSecPerSec :: int where
  "NSecPerSec = 1000000000"

definition SecPerNSec :: double where
  "SecPerNSec = ddiv (Finite 1) (double_of_long NSecPerSec)"

record rate =
  name :: string
  timeStep :: double
  maxTimeStepWarning :: double
  maxTimeStepError :: double
  enforceRate :: bool
  clockId :: int
  sleepStartTime :: timespec
  sleepEndTime :: timespec
  stepTime :: timespec
  numTimeSteps :: "32 word"
  numWarnings :: "32 word"
  numErrors :: "32 word"
  awakeTime :: double
  awakeTimeMean :: double
  awakeTimeM2 :: double

text \<open>
  What is written to the message logger: the severity of the stream macro and the pieces
  streamed into it, in order.
\<close>

datatype severity = Warn | Error

datatype piece = Text string | Number double

type_synonym diagnostic = "severity \<times> piece list"

text \<open>What a call of \<open>sleep\<close> does to its caller: return at once, or \<open>clock_nanosleep\<close>
  on the given clock with \<open>TIMER_ABSTIME\<close> until the given instant.\<close>

datatype outcome = Returned | SleptUntil int timespec

section \<open>The operations\<close>

definition GetDuration :: "timespec \<Rightarrow> timespec \<Rightarrow> double option" where
  "GetDuration start end = do {
     ds \<leftarrow> long_of (tv_sec end - tv_sec start);
     dn \<leftarrow> long_of (tv_nsec end - tv_nsec start);
     Some (dadd (double_of_long ds) (dmul (double_of_long dn) SecPerNSec))
   }"

definition TimeStepIsValid :: "double \<Rightarrow> bool" where
  "TimeStepIsValid ts \<longleftrightarrow> dle (Finite 0) ts \<and> \<not> isinf ts \<and> \<not> isnan ts"

definition MaxTimeStepIsValid :: "double \<Rightarrow> bool" where
  "MaxTimeStepIsValid m \<longleftrightarrow> dle (Finite 0) m \<and> \<not> isnan m"

definition getTimeStep :: "rate \<Rightarrow> double" where
  "getTimeStep r = timeStep r"

definition setTimeStep :: "double \<Rightarrow> rate \<Rightarrow> rate \<times> diagnostic list" where
  "setTimeStep ts r =
     (if \<not> TimeStepIsValid ts then
        (r, [(Error, [Text (''Rate '' @ [CHR 0x27]), Text (name r), Text (CHR 0x27 # '': ''),
                      Text ''Cannot set the time step to an invalid value '',
                      Number ts, Text '' s.''])])
      else (r\<lparr>timeStep := ts\<rparr>, []))"

definition getMaxTimeStepWarning :: "rate \<Rightarrow> double" where
  "getMaxTimeStepWarning r = maxTimeStepWarning r"

definition setMaxTimeStepWarning :: "double \<Rightarrow> rate \<Rightarrow> rate \<times> diagnostic list" where
  "setMaxTimeStepWarning m r =
     (if \<not> MaxTimeStepIsValid m then
        (r, [(Error, [Text (''Rate '' @ [CHR 0x27]), Text (name r), Text (CHR 0x27 # '': ''),
                      Text ''Cannot set the max time step for warnings to invalid value '',
                      Number m, Text '' s.''])])
      else (r\<lparr>maxTimeStepWarning := m\<rparr>, []))"

definition getMaxTimeStepError :: "rate \<Rightarrow> double" where
  "getMaxTimeStepError r = maxTimeStepError r"

definition setMaxTimeStepError :: "double \<Rightarrow> rate \<Rightarrow> rate \<times> diagnostic list" where
  "setMaxTimeStepError m r =
     (if \<not> MaxTimeStepIsValid m then
        (r, [(Error, [Text (''Rate '' @ [CHR 0x27]), Text (name r), Text (CHR 0x27 # '': ''),
                      Text ''Cannot set the max time step for errors to invalid value '',
                      Number m, Text '' s.''])])
      else (r\<lparr>maxTimeStepError := m\<rparr>, []))"

definition getEnforceRate :: "rate \<Rightarrow> bool" where
  "getEnforceRate r = enforceRate r"

definition setEnforceRate :: "bool \<Rightarrow> rate \<Rightarrow> rate" where
  "setEnforceRate e r = r\<lparr>enforceRate := e\<rparr>"

text \<open>\<open>reset\<close> reads the clock once; the sample is the argument \<open>now\<close>.\<close>

definition reset :: "timespec \<Rightarrow> rate \<Rightarrow> rate" where
  "reset now r =
     r\<lparr>numTimeSteps := 0, numWarnings := 0, numErrors := 0,
       awakeTime := Finite 0, awakeTimeMean := Finite 0, awakeTimeM2 := Finite 0,
       sleepStartTime := now, sleepEndTime := now, stepTime := now\<rparr>"

text \<open>
  The full constructor runs the four setters and \<open>reset\<close> on the storage \<open>mem\<close> of the new
  object; a member whose setter rejects its argument keeps what \<open>mem\<close> held. The short
  constructor delegates to it.
\<close>

definition Rate_full ::
  "rate \<Rightarrow> string \<Rightarrow> double \<Rightarrow> double \<Rightarrow> double \<Rightarrow> bool \<Rightarrow> int \<Rightarrow> timespec \<Rightarrow> rate" where
  "Rate_full mem nm ts mw me enf clk now =
     (let r0 = mem\<lparr>name := nm, clockId := clk\<rparr>;
          r1 = fst (setTimeStep ts r0);
          r2 = fst (setMaxTimeStepWarning mw r1);
          r3 = fst (setMaxTimeStepError me r2);
          r4 = setEnforceRate enf r3
      in reset now r4)"

definition CLOCK_MONOTONIC :: int where
  "CLOCK_MONOTONIC = 1"

definition Rate_short :: "rate \<Rightarrow> string \<Rightarrow> double \<Rightarrow> timespec \<Rightarrow> rate" where
  "Rate_short mem nm ts now =
     Rate_full mem nm ts ts (dmul (Finite 10) ts) True CLOCK_MONOTONIC now"

subsection \<open>sleep\<close>

text \<open>The statistics update of \<open>sleep\<close>, on the awake time already stored.\<close>

definition updateStatistics :: "rate \<Rightarrow> rate" where
  "updateStatistics r =
     (let r = r\<lparr>numTimeSteps := numTimeSteps r + 1\<rparr>;
          delta = dsub (awakeTime r) (awakeTimeMean r);
          r = r\<lparr>awakeTimeMean :=
                 dadd (awakeTimeMean r) (ddiv delta (double_of_uint (numTimeSteps r)))\<rparr>;
          delta2 = dsub (awakeTime r) (awakeTimeMean r)
      in r\<lparr>awakeTimeM2 := dadd (awakeTimeM2 r) (dmul delta delta2)\<rparr>)"

definition tooLong :: "rate \<Rightarrow> piece list" where
  "tooLong r =
     [Text (''Rate '' @ [CHR 0x27]), Text (name r), Text (CHR 0x27 # '': ''),
      Text ''Processing took too long ('', Number (awakeTime r), Text '' s > '',
      Number (timeStep r), Text '' s).'']"

definition checkThresholds :: "rate \<Rightarrow> rate \<times> diagnostic list" where
  "checkThresholds r =
     (if dless (maxTimeStepError r) (awakeTime r) then
        (r\<lparr>numErrors := numErrors r + 1\<rparr>, [(Error, tooLong r)])
      else if dless (maxTimeStepWarning r) (awakeTime r) then
        (r\<lparr>numWarnings := numWarnings r + 1\<rparr>, [(Warn, tooLong r)])
      else (r, []))"

text \<open>
  The next desired step time: the three assignments to \<open>stepTime_\<close>, as a function of
  the time step and of the step time they start from. The first is a compound assignment
  of a double to a \<open>long\<close>: \<open>NSecPerSec_\<close> and \<open>tv_nsec\<close> are converted to double, the
  product and the sum are computed in double, each rounded to binary64, and the sum is
  converted back to \<open>long\<close>, which drops its fraction.
\<close>

definition nextStepTime :: "double \<Rightarrow> timespec \<Rightarrow> timespec option" where
  "nextStepTime ts st = do {
     n1 \<leftarrow> double_to_long (fl (dadd (fl (double_of_long (tv_nsec st)))
                                   (fl (dmul ts (fl (double_of_long NSecPerSec))))));
     s1 \<leftarrow> long_of (tv_sec st + cdiv n1 NSecPerSec);
     Some \<lparr>tv_sec = s1, tv_nsec = crem n1 NSecPerSec\<rparr>
   }"

text \<open>
  \<open>sleep\<close> reads the clock twice; the two samples are the arguments \<open>now1\<close> and \<open>now2\<close>.
  The result is the new state, the diagnostics written, and what happens to the caller.
\<close>

definition sleep :: "timespec \<Rightarrow> timespec \<Rightarrow> rate \<Rightarrow> (rate \<times> diagnostic list \<times> outcome) option" where
  "sleep now1 now2 r = do {
     let r = r\<lparr>sleepStartTime := now1\<rparr>;
     awake \<leftarrow> GetDuration (sleepEndTime r) (sleepStartTime r);
     let r = updateStatistics (r\<lparr>awakeTime := awake\<rparr>);
     let (r, diags) = checkThresholds r;
     next \<leftarrow> nextStepTime (timeStep r) (stepTime r);
     let r = r\<lparr>stepTime := next\<rparr>;
     let r = r\<lparr>sleepEndTime := now2\<rparr>;
     d \<leftarrow> GetDuration (sleepEndTime r) (stepTime r);
     let isBehind = dless d (Finite 0);
     if isBehind then
       if \<not> enforceRate r then Some (r\<lparr>stepTime := sleepEndTime r\<rparr>, diags, Returned)
       else Some (r, diags, Returned)
     else
       Some (r\<lparr>sleepEndTime := stepTime r\<rparr>, diags, SleptUntil (clockId r) (stepTime r))
   }"

subsection \<open>Accessors\<close>

definition getSleepStartTime :: "rate \<Rightarrow> timespec" where
  "getSleepStartTime r = sleepStartTime r"

definition getSleepEndTime :: "rate \<Rightarrow> timespec" where
  "getSleepEndTime r = sleepEndTime r"

definition getStepTime :: "rate \<Rightarrow> timespec" where
  "getStepTime r = stepTime r"

definition getNumTimeSteps :: "rate \<Rightarrow> 32 word" where
  "getNumTimeSteps r = numTimeSteps r"

definition getNumWarnings :: "rate \<Rightarrow> 32 word" where
  "getNumWarnings r = numWarnings r"

definition getNumErrors :: "rate \<Rightarrow> 32 word" where
  "getNumErrors r = numErrors r"

definition getAwakeTime :: "rate \<Rightarrow> double" where
  "getAwakeTime r = (if numTimeSteps r = 0 then NaN else awakeTime r)"

definition getAwakeTimeMean :: "rate \<Rightarrow> double" where
  "getAwakeTimeMean r = (if numTimeSteps r = 0 then NaN else awakeTimeMean r)"

definition getAwakeTimeVar :: "rate \<Rightarrow> double" where
  "getAwakeTimeVar r =
     (if numTimeSteps r \<le> 1 then NaN
      else ddiv (awakeTimeM2 r) (double_of_uint (numTimeSteps r - 1)))"

definition getAwakeTimeStdDev :: "rate \<Rightarrow> double" where
  "getAwakeTimeStdDev r = dsqrt (getAwakeTimeVar r)"

section \<open>Vocabulary of the properties\<close>

subsection \<open>Instants\<close>

text \<open>
  The instant a \<open>timespec\<close> denotes, in nanoseconds, and the normal form in which the
  clock delivers it.
\<close>

definition to_ns :: "timespec \<Rightarrow> int" where
  "to_ns t = tv_sec t * NSecPerSec + tv_nsec t"

definition normalized :: "timespec \<Rightarrow> bool" where
  "normalized t \<longleftrightarrow> 0 \<le> tv_nsec t \<and> tv_nsec t < NSecPerSec"

text \<open>
  Timestamps far from the ends of the 64-bit range: in normal form, and less than
  \<open>2^61\<close> seconds from zero.
\<close>

definition in_range :: "timespec \<Rightarrow> bool" where
  "in_range t \<longleftrightarrow> normalized t \<and> \<bar>tv_sec t\<bar> < 2 ^ 61"

text \<open>
  The nanoseconds of a time step as \<open>sleep\<close> computes them: the double product
  \<open>timeStep_ * NSecPerSec_\<close>.
\<close>

definition step_ns :: "double \<Rightarrow> double" where
  "step_ns ts = fl (dmul ts (fl (double_of_long NSecPerSec)))"

text \<open>
  By how many nanoseconds the instant \<open>t\<close> is before the instant \<open>n\<close> time steps of
  \<open>x\<close> seconds after \<open>now\<close>.
\<close>

definition schedule_lag :: "timespec \<Rightarrow> real \<Rightarrow> nat \<Rightarrow> timespec \<Rightarrow> real" where
  "schedule_lag now x n t =
     (real_of_int (to_ns now) + real n * (x * 1000000000)) - real_of_int (to_ns t)"


subsection \<open>The parts of sleep\<close>

text \<open>
  Two parts of \<open>sleep\<close> under names of their own: \<open>measured\<close> is the state and the
  diagnostics after the statistics and the threshold check, for the awake time \<open>awake\<close>;
  \<open>policy\<close> is the final conditional, for the step time \<open>next\<close> and the duration \<open>d\<close>
  from the second clock sample to it.
\<close>

definition measured :: "timespec \<Rightarrow> double \<Rightarrow> rate \<Rightarrow> rate \<times> diagnostic list" where
  "measured now1 awake r =
     checkThresholds (updateStatistics (r\<lparr>sleepStartTime := now1, awakeTime := awake\<rparr>))"

definition policy :: "timespec \<Rightarrow> timespec \<Rightarrow> double \<Rightarrow> rate \<Rightarrow> rate \<times> outcome" where
  "policy now2 next d r =
     (if dless d (Finite 0) then
        if \<not> enforceRate r then (r\<lparr>stepTime := now2, sleepEndTime := now2\<rparr>, Returned)
        else (r\<lparr>stepTime := next, sleepEndTime := now2\<rparr>, Returned)
      else (r\<lparr>stepTime := next, sleepEndTime := next\<rparr>, SleptUntil (clockId r) next))"

subsection \<open>The owning loop\<close>

text \<open>
  Consecutive calls of \<open>sleep\<close>, one for each pair of clock samples; the loop has a
  result when every call has one.
\<close>

fun sleeps :: "(timespec \<times> timespec) list \<Rightarrow> rate \<Rightarrow> rate option" where
  "sleeps [] r = Some r"
| "sleeps (c # cs) r =
     (case sleep (fst c) (snd c) r of None \<Rightarrow> None | Some res \<Rightarrow> sleeps cs (fst res))"

text \<open>
  Every call of the loop has a result and is on schedule: its step time is not before
  its second clock sample, and the call goes on to \<open>clock_nanosleep\<close>.
\<close>

fun on_schedule :: "(timespec \<times> timespec) list \<Rightarrow> rate \<Rightarrow> bool" where
  "on_schedule [] r = True"
| "on_schedule (c # cs) r =
     (case sleep (fst c) (snd c) r of
        None \<Rightarrow> False
      | Some res \<Rightarrow> snd (snd res) \<noteq> Returned \<and> on_schedule cs (fst res))"

text \<open>The step time after \<open>n\<close> advances by the time step \<open>ts\<close>, from the step time \<open>st\<close>.\<close>

fun advances :: "nat \<Rightarrow> double \<Rightarrow> timespec \<Rightarrow> timespec option" where
  "advances 0 ts st = Some st"
| "advances (Suc n) ts st =
     (case nextStepTime ts st of None \<Rightarrow> None | Some t \<Rightarrow> advances n ts t)"


text \<open>The samples of a clock that delivers its readings in normal form.\<close>

definition normal_samples :: "(timespec \<times> timespec) list \<Rightarrow> bool" where
  "normal_samples cs = list_all (\<lambda>c. normalized (fst c) \<and> normalized (snd c)) cs"


subsection \<open>Statistics of a sample sequence\<close>

text \<open>
  A sequence of awake times fed through the statistics update of \<open>sleep\<close>: each sample
  is stored as the awake time, then the update runs.
\<close>

definition feed :: "double list \<Rightarrow> rate \<Rightarrow> rate" where
  "feed xs r = foldl (\<lambda>r x. updateStatistics (r\<lparr>awakeTime := x\<rparr>)) r xs"

text \<open>
  The same update and the variance accessor with the result of every operation on doubles
  rounded to binary64, as the processor computes them, and a sample sequence fed through
  that update.
\<close>

definition updateStatistics64 :: "rate \<Rightarrow> rate" where
  "updateStatistics64 r =
     (let r = r\<lparr>numTimeSteps := numTimeSteps r + 1\<rparr>;
          delta = fl (dsub (awakeTime r) (awakeTimeMean r));
          r = r\<lparr>awakeTimeMean :=
                 fl (dadd (awakeTimeMean r)
                          (fl (ddiv delta (fl (double_of_uint (numTimeSteps r))))))\<rparr>;
          delta2 = fl (dsub (awakeTime r) (awakeTimeMean r))
      in r\<lparr>awakeTimeM2 := fl (dadd (awakeTimeM2 r) (fl (dmul delta delta2)))\<rparr>)"

definition getAwakeTimeVar64 :: "rate \<Rightarrow> double" where
  "getAwakeTimeVar64 r =
     (if numTimeSteps r \<le> 1 then NaN
      else fl (ddiv (awakeTimeM2 r) (fl (double_of_uint (numTimeSteps r - 1)))))"

definition feed64 :: "double list \<Rightarrow> rate \<Rightarrow> rate" where
  "feed64 xs r = foldl (\<lambda>r x. updateStatistics64 (r\<lparr>awakeTime := x\<rparr>)) r xs"

text \<open>
  The awake times that the calls of the owning loop measure, in order, and the number a
  finite double denotes.
\<close>

fun awake_times :: "(timespec \<times> timespec) list \<Rightarrow> rate \<Rightarrow> double list" where
  "awake_times [] r = []"
| "awake_times (c # cs) r =
     (case sleep (fst c) (snd c) r of
        None \<Rightarrow> []
      | Some res \<Rightarrow> awakeTime (fst res) # awake_times cs (fst res))"

fun the_finite :: "double \<Rightarrow> real" where
  "the_finite (Finite x) = x"
| "the_finite _ = 0"

text \<open>
  The mean and the unbiased sample variance of the whole sample set, computed directly
  as the spec words them: the sum over the count, and the sum of the squared deviations
  from the mean over the count less one.
\<close>

definition arithmetic_mean :: "real list \<Rightarrow> real" where
  "arithmetic_mean xs = sum_list xs / real (length xs)"

definition sample_variance :: "real list \<Rightarrow> real" where
  "sample_variance xs =
     (\<Sum>x\<leftarrow>xs. (x - arithmetic_mean xs)\<^sup>2) / (real (length xs) - 1)"

subsection \<open>Example objects\<close>

text \<open>
  The storage of an object before its constructor runs (its content does not matter when
  the constructor's arguments are valid), and a 1024 Hz loop built by the short
  constructor when the clock reads 100.999999 s.
\<close>

definition raw_storage :: rate where
  "raw_storage =
     \<lparr>name = [], timeStep = NaN, maxTimeStepWarning = NaN, maxTimeStepError = NaN,
      enforceRate = False, clockId = 0,
      sleepStartTime = \<lparr>tv_sec = 0, tv_nsec = 0\<rparr>,
      sleepEndTime = \<lparr>tv_sec = 0, tv_nsec = 0\<rparr>,
      stepTime = \<lparr>tv_sec = 0, tv_nsec = 0\<rparr>,
      numTimeSteps = 0, numWarnings = 0, numErrors = 0,
      awakeTime = NaN, awakeTimeMean = NaN, awakeTimeM2 = NaN\<rparr>"

definition loop1024 :: rate where
  "loop1024 =
     Rate_short raw_storage ''loop'' (Finite (1 / 1024)) \<lparr>tv_sec = 100, tv_nsec = 999999000\<rparr>"

text \<open>
  The first cycle of the 1024 Hz loop takes a second: \<open>sleep\<close> samples the clock at 102 s
  and again 100 ns later. This is what the call returns.
\<close>

definition overrun_result :: "rate \<times> diagnostic list \<times> outcome" where
  "overrun_result =
     (\<lparr>name = ''loop'', timeStep = Finite (1 / 1024),
       maxTimeStepWarning = Finite (1 / 1024), maxTimeStepError = Finite (5 / 512),
       enforceRate = True, clockId = 1,
       sleepStartTime = \<lparr>tv_sec = 102, tv_nsec = 0\<rparr>,
       sleepEndTime = \<lparr>tv_sec = 102, tv_nsec = 100\<rparr>,
       stepTime = \<lparr>tv_sec = 101, tv_nsec = 975562\<rparr>,
       numTimeSteps = 1, numWarnings = 0, numErrors = 1,
       awakeTime = Finite (1000001 / 1000000),
       awakeTimeMean = Finite (1000001 / 1000000), awakeTimeM2 = Finite 0\<rparr>,
      [(Error,
        [Text (''Rate '' @ [CHR 0x27]), Text ''loop'', Text (CHR 0x27 # '': ''),
         Text ''Processing took too long ('', Number (Finite (1000001 / 1000000)),
         Text '' s > '', Number (Finite (1 / 1024)), Text '' s).''])],
      Returned)"


text \<open>
  Four cycles of the 1024 Hz loop that keep up with the schedule: every call of \<open>sleep\<close>
  samples the clock 500 ns and 600 ns after the step time the call before it slept to.
\<close>

definition trace1024 :: "(timespec \<times> timespec) list" where
  "trace1024 =
     [(\<lparr>tv_sec = 100, tv_nsec = 999999500\<rparr>, \<lparr>tv_sec = 100, tv_nsec = 999999600\<rparr>),
      (\<lparr>tv_sec = 101, tv_nsec = 976062\<rparr>, \<lparr>tv_sec = 101, tv_nsec = 976162\<rparr>),
      (\<lparr>tv_sec = 101, tv_nsec = 1952624\<rparr>, \<lparr>tv_sec = 101, tv_nsec = 1952724\<rparr>),
      (\<lparr>tv_sec = 101, tv_nsec = 2929186\<rparr>, \<lparr>tv_sec = 101, tv_nsec = 2929286\<rparr>)]"

text \<open>A 4 Hz loop that does not enforce its rate, built when the clock reads 5 s.\<close>

definition loop4 :: rate where
  "loop4 =
     Rate_full raw_storage ''loop'' (Finite (1 / 4)) (Finite (1 / 8)) (Finite 1) False 0
       \<lparr>tv_sec = 5, tv_nsec = 0\<rparr>"

text \<open>
  The first cycle of the 4 Hz loop takes a quarter of a second: \<open>sleep\<close> samples the
  clock at 5.25 s and again 1000 ns later, just behind the next step time.
\<close>

definition slip_result :: "rate \<times> diagnostic list \<times> outcome" where
  "slip_result =
     (\<lparr>name = ''loop'', timeStep = Finite (1 / 4),
       maxTimeStepWarning = Finite (1 / 8), maxTimeStepError = Finite 1,
       enforceRate = False, clockId = 0,
       sleepStartTime = \<lparr>tv_sec = 5, tv_nsec = 250000000\<rparr>,
       sleepEndTime = \<lparr>tv_sec = 5, tv_nsec = 250001000\<rparr>,
       stepTime = \<lparr>tv_sec = 5, tv_nsec = 250001000\<rparr>,
       numTimeSteps = 1, numWarnings = 1, numErrors = 0,
       awakeTime = Finite (1 / 4), awakeTimeMean = Finite (1 / 4), awakeTimeM2 = Finite 0\<rparr>,
      [(Warn,
        [Text (''Rate '' @ [CHR 0x27]), Text ''loop'', Text (CHR 0x27 # '': ''),
         Text ''Processing took too long ('', Number (Finite (1 / 4)),
         Text '' s > '', Number (Finite (1 / 4)), Text '' s).''])],
      Returned)"

text \<open>
  Two cycles of the 4 Hz loop that keep up with the schedule, of 100 ms and of 50 ms, and
  the state after them.
\<close>

definition trace4 :: "(timespec \<times> timespec) list" where
  "trace4 =
     [(\<lparr>tv_sec = 5, tv_nsec = 100000000\<rparr>, \<lparr>tv_sec = 5, tv_nsec = 100000100\<rparr>),
      (\<lparr>tv_sec = 5, tv_nsec = 300000000\<rparr>, \<lparr>tv_sec = 5, tv_nsec = 300000100\<rparr>)]"

definition trace4_result :: rate where
  "trace4_result =
     \<lparr>name = ''loop'', timeStep = Finite (1 / 4),
      maxTimeStepWarning = Finite (1 / 8), maxTimeStepError = Finite 1,
      enforceRate = False, clockId = 0,
      sleepStartTime = \<lparr>tv_sec = 5, tv_nsec = 300000000\<rparr>,
      sleepEndTime = \<lparr>tv_sec = 5, tv_nsec = 500000000\<rparr>,
      stepTime = \<lparr>tv_sec = 5, tv_nsec = 500000000\<rparr>,
      numTimeSteps = 2, numWarnings = 0, numErrors = 0,
      awakeTime = Finite (1 / 20), awakeTimeMean = Finite (3 / 40),
      awakeTimeM2 = Finite (1 / 800)\<rparr>"

text \<open>
  A rate with a time step of zero, built when the clock reads 5 s, two of its cycles, and
  what its first call of \<open>sleep\<close> returns.
\<close>

definition probe :: rate where
  "probe =
     Rate_full raw_storage ''probe'' (Finite 0) (Finite (1 / 8)) (Finite 1) True 0
       \<lparr>tv_sec = 5, tv_nsec = 0\<rparr>"


definition probe_result :: "rate \<times> diagnostic list \<times> outcome" where
  "probe_result =
     (\<lparr>name = ''probe'', timeStep = Finite 0,
       maxTimeStepWarning = Finite (1 / 8), maxTimeStepError = Finite 1,
       enforceRate = True, clockId = 0,
       sleepStartTime = \<lparr>tv_sec = 5, tv_nsec = 250000000\<rparr>,
       sleepEndTime = \<lparr>tv_sec = 5, tv_nsec = 250001000\<rparr>,
       stepTime = \<lparr>tv_sec = 5, tv_nsec = 0\<rparr>,
       numTimeSteps = 1, numWarnings = 1, numErrors = 0,
       awakeTime = Finite (1 / 4), awakeTimeMean = Finite (1 / 4), awakeTimeM2 = Finite 0\<rparr>,
      [(Warn,
        [Text (''Rate '' @ [CHR 0x27]), Text ''probe'', Text (CHR 0x27 # '': ''),
         Text ''Processing took too long ('', Number (Finite (1 / 4)),
         Text '' s > '', Number (Finite 0), Text '' s).''])],
      Returned)"


text \<open>
  Two rates with a long time step, built when the clock reads 5 s: one of \<open>10^10\<close>
  seconds, and one of 9223372037 seconds, the least whole number of seconds whose
  nanoseconds exceed the greatest \<open>long\<close>.
\<close>

definition long_loop :: rate where
  "long_loop = Rate_short raw_storage ''loop'' (Finite 10000000000) \<lparr>tv_sec = 5, tv_nsec = 0\<rparr>"

definition edge_loop :: rate where
  "edge_loop =
     Rate_full raw_storage ''loop'' (Finite 9223372037) (Finite 1) (Finite 10) True 0
       \<lparr>tv_sec = 5, tv_nsec = 0\<rparr>"

text \<open>
  A 1 kHz loop on a clock that is read at whole milliseconds: \<open>tick i\<close> is the reading
  \<open>i\<close> milliseconds after zero, and \<open>ticks k n\<close> are the samples of \<open>n\<close> cycles after
  millisecond \<open>k\<close>, each call of \<open>sleep\<close> reading the next millisecond twice.
\<close>

definition tick :: "nat \<Rightarrow> timespec" where
  "tick i = \<lparr>tv_sec = int (i div 1000), tv_nsec = int (i mod 1000) * 1000000\<rparr>"

fun ticks :: "nat \<Rightarrow> nat \<Rightarrow> (timespec \<times> timespec) list" where
  "ticks k 0 = []"
| "ticks k (Suc n) = (tick (Suc k), tick (Suc k)) # ticks (Suc k) n"

definition loop1000 :: rate where
  "loop1000 = Rate_short raw_storage ''loop'' (Finite (1 / 1000)) (tick 0)"

section \<open>Basic facts\<close>

lemmas eval_defs = sleep_def Rate_short_def Rate_full_def raw_storage_def setTimeStep_def
  setMaxTimeStepWarning_def setMaxTimeStepError_def setEnforceRate_def reset_def
  TimeStepIsValid_def MaxTimeStepIsValid_def GetDuration_def long_of_def in_long_def
  double_of_long_def double_of_uint_def SecPerNSec_def NSecPerSec_def updateStatistics_def
  checkThresholds_def tooLong_def truncate_real_def cdiv_def crem_def
  dsub_def CLOCK_MONOTONIC_def Let_def signed_inf_def loop1024_def loop4_def probe_def
  long_loop_def edge_loop_def

lemma SecPerNSec_eq: "SecPerNSec = Finite (1 / 1000000000)"
  by (simp add: SecPerNSec_def double_of_long_def NSecPerSec_def)

lemma GetDuration_Some:
  "GetDuration s e = Some d \<Longrightarrow> d = Finite (real_of_int (to_ns e - to_ns s) / 1000000000)"
  by (auto simp: GetDuration_def long_of_def SecPerNSec_eq double_of_long_def to_ns_def
      NSecPerSec_def field_simps split: if_splits Option.bind_splits)

lemma GetDuration_defined:
  "in_long (tv_sec e - tv_sec s) \<Longrightarrow> in_long (tv_nsec e - tv_nsec s) \<Longrightarrow>
   GetDuration s e = Some (Finite (real_of_int (to_ns e - to_ns s) / 1000000000))"
  by (auto simp: GetDuration_def long_of_def SecPerNSec_eq double_of_long_def to_ns_def
      NSecPerSec_def field_simps)

lemma behind_iff:
  "GetDuration now2 t = Some d \<Longrightarrow> dless d (Finite 0) \<longleftrightarrow> to_ns t < to_ns now2"
  by (drule GetDuration_Some) simp

lemma TimeStepIsValid_iff: "TimeStepIsValid ts \<longleftrightarrow> (\<exists>x. ts = Finite x \<and> 0 \<le> x)"
  by (cases ts) (auto simp: TimeStepIsValid_def)

lemma MaxTimeStepIsValid_iff:
  "MaxTimeStepIsValid m \<longleftrightarrow> m = PInf \<or> (\<exists>x. m = Finite x \<and> 0 \<le> x)"
  by (cases m) (auto simp: MaxTimeStepIsValid_def)

subsection \<open>Rounding to binary64\<close>

lemma round_even_ge: "\<lfloor>y\<rfloor> \<le> round_even y"
  by (simp add: round_even_def Let_def)

lemma round_even_le: "round_even y \<le> \<lceil>y\<rceil>"
proof -
  have "\<lfloor>y\<rfloor> + 1 \<le> \<lceil>y\<rceil>" if "y \<noteq> real_of_int \<lfloor>y\<rfloor>"
    using that by (metis ceiling_altdef order_refl of_int_floor_cancel)
  moreover have "\<lfloor>y\<rfloor> \<le> \<lceil>y\<rceil>" by (rule floor_le_ceiling)
  ultimately show ?thesis
    by (auto simp: round_even_def Let_def)
qed

lemma round_even_of_int: "round_even (real_of_int n) = n"
  by (simp add: round_even_def)

lemma round_even_error: "\<bar>real_of_int (round_even y) - y\<bar> \<le> 1 / 2"
proof -
  have "real_of_int \<lfloor>y\<rfloor> \<le> y" "y < real_of_int \<lfloor>y\<rfloor> + 1"
    by linarith+
  then show ?thesis
    by (auto simp: round_even_def Let_def abs_le_iff)
qed

lemma round_even_int_le:
  "real_of_int n \<le> y \<Longrightarrow> n \<le> round_even y"
  using round_even_ge[of y] le_floor_iff[of n y] by linarith

lemma round_even_le_int:
  "y \<le> real_of_int n \<Longrightarrow> round_even y \<le> n"
  using round_even_le[of y] ceiling_le_iff[of y n] by linarith


lemma round_mag_alt:
  assumes "Y = \<bar>x\<bar> * 2 ^ 1074" and "k = nat (bitlen \<lfloor>Y\<rfloor> - 53)"
  shows "round_mag x = round_even (Y / 2 ^ k) * 2 ^ k"
  unfolding round_mag_def Let_def assms ..

lemma bitlen_small:
  assumes "0 \<le> m" "m < 2 ^ 53" "n \<le> m * 2 ^ t"
  shows "nat (bitlen n - 53) \<le> t"
proof -
  have a: "m * 2 ^ t < 2 ^ 53 * 2 ^ t"
    using assms(2) by (intro mult_strict_right_mono) simp_all
  have e: "(2::int) ^ nat (53 + int t) = 2 ^ 53 * 2 ^ t"
    by (simp add: nat_add_distrib power_add)
  have "n < 2 ^ nat (53 + int t)"
    unfolding e using a assms(3) by linarith
  then have "bitlen n \<le> 53 + int t"
    using bitlen_le_iff_power[of n "53 + int t"] by linarith
  then show ?thesis by linarith
qed

lemma scaled_int:
  assumes "k \<le> t"
  shows "real_of_int (m * 2 ^ t) / 2 ^ k = real_of_int (m * 2 ^ (t - k))"
proof -
  have "(2::real) ^ t = 2 ^ (t - k) * 2 ^ k"
    using assms by (simp add: power_add[symmetric])
  then show ?thesis by simp
qed

lemma unscaled_int:
  assumes "k \<le> t"
  shows "m * 2 ^ (t - k) * 2 ^ k = (m * 2 ^ t :: int)"
proof -
  have "(2::int) ^ t = 2 ^ (t - k) * 2 ^ k"
    using assms by (simp add: power_add[symmetric])
  then show ?thesis by simp
qed

lemma round_mag_exact:
  assumes "\<bar>x\<bar> * 2 ^ 1074 = real_of_int (m * 2 ^ t)" and "0 \<le> m" and "m < 2 ^ 53"
  shows "round_mag x = m * 2 ^ t"
proof -
  define Y where "Y = \<bar>x\<bar> * 2 ^ 1074"
  define k where "k = nat (bitlen \<lfloor>Y\<rfloor> - 53)"
  have Y: "Y = real_of_int (m * 2 ^ t)"
    using assms(1) by (simp add: Y_def)
  then have "\<lfloor>Y\<rfloor> = m * 2 ^ t"
    by (simp only: floor_of_int)
  then have k: "k \<le> t"
    unfolding k_def using bitlen_small[OF assms(2,3), of "\<lfloor>Y\<rfloor>" t] by simp
  have "round_even (Y / 2 ^ k) = m * 2 ^ (t - k)"
    unfolding Y scaled_int[OF k] by (rule round_even_of_int)
  then show ?thesis
    unfolding round_mag_alt[OF Y_def k_def] by (simp only: unscaled_int[OF k])
qed

lemma round_mag_upper:
  assumes "a * 2 ^ 1074 = real_of_int (m * 2 ^ t)" and "0 \<le> m" and "m < 2 ^ 53"
    and "\<bar>y\<bar> \<le> a"
  shows "round_mag y \<le> m * 2 ^ t"
proof -
  define Y where "Y = \<bar>y\<bar> * 2 ^ 1074"
  define k where "k = nat (bitlen \<lfloor>Y\<rfloor> - 53)"
  have "Y \<le> a * 2 ^ 1074"
    unfolding Y_def using assms(4) by (intro mult_right_mono) simp_all
  then have Y: "Y \<le> real_of_int (m * 2 ^ t)"
    by (simp only: assms(1))
  then have "\<lfloor>Y\<rfloor> \<le> m * 2 ^ t"
    by (metis floor_mono floor_of_int)
  then have k: "k \<le> t"
    unfolding k_def by (rule bitlen_small[OF assms(2,3)])
  have "Y / 2 ^ k \<le> real_of_int (m * 2 ^ t) / 2 ^ k"
    using Y by (intro divide_right_mono) simp_all
  then have "round_even (Y / 2 ^ k) \<le> m * 2 ^ (t - k)"
    unfolding scaled_int[OF k] by (rule round_even_le_int)
  then have "round_even (Y / 2 ^ k) * 2 ^ k \<le> m * 2 ^ (t - k) * 2 ^ k"
    by (intro mult_right_mono) simp_all
  then show ?thesis
    unfolding round_mag_alt[OF Y_def k_def] by (simp only: unscaled_int[OF k])
qed

lemma round_mag_lower:
  assumes "a * 2 ^ 1074 = real_of_int (m * 2 ^ t)" and "0 \<le> m" and "m < 2 ^ 53"
    and "a \<le> \<bar>y\<bar>"
  shows "m * 2 ^ t \<le> round_mag y"
proof -
  define Y where "Y = \<bar>y\<bar> * 2 ^ 1074"
  define k where "k = nat (bitlen \<lfloor>Y\<rfloor> - 53)"
  have "a * 2 ^ 1074 \<le> Y"
    unfolding Y_def using assms(4) by (intro mult_right_mono) simp_all
  then have Y: "real_of_int (m * 2 ^ t) \<le> Y"
    by (simp only: assms(1))
  show ?thesis
  proof (cases "k \<le> t")
    case True
    have "real_of_int (m * 2 ^ t) / 2 ^ k \<le> Y / 2 ^ k"
      using Y by (intro divide_right_mono) simp_all
    then have "m * 2 ^ (t - k) \<le> round_even (Y / 2 ^ k)"
      unfolding scaled_int[OF True] by (rule round_even_int_le)
    then have "m * 2 ^ (t - k) * 2 ^ k \<le> round_even (Y / 2 ^ k) * 2 ^ k"
      by (intro mult_right_mono) simp_all
    then show ?thesis
      unfolding round_mag_alt[OF Y_def k_def] by (simp only: unscaled_int[OF True])
  next
    case False
    then have kt: "Suc t \<le> k" by simp
    then have b: "54 \<le> bitlen \<lfloor>Y\<rfloor>" and kb: "int k = bitlen \<lfloor>Y\<rfloor> - 53"
      unfolding k_def by linarith+
    then have pos: "0 < \<lfloor>Y\<rfloor>"
      using bitlen_eq_zero_iff[of "\<lfloor>Y\<rfloor>"] by linarith
    have "nat (bitlen \<lfloor>Y\<rfloor> - 1) = 52 + k"
      using kb by linarith
    with bitlen_bounds[OF pos] have "2 ^ (52 + k) \<le> \<lfloor>Y\<rfloor>"
      by simp
    then have "real_of_int (2 ^ (52 + k)) \<le> Y"
      using le_floor_iff by blast
    then have "real_of_int (2 ^ 52) * 2 ^ k \<le> Y"
      by (simp add: power_add)
    then have "real_of_int (2 ^ 52) \<le> Y / 2 ^ k"
      by (simp add: pos_le_divide_eq)
    then have "2 ^ 52 \<le> round_even (Y / 2 ^ k)"
      by (rule round_even_int_le)
    then have "2 ^ 52 * 2 ^ k \<le> round_even (Y / 2 ^ k) * 2 ^ k"
      by (intro mult_right_mono) simp_all
    then have R: "2 ^ (52 + k) \<le> round_mag y"
      unfolding round_mag_alt[OF Y_def k_def] by (simp only: power_add)
    have "m * 2 ^ t \<le> 2 ^ 53 * 2 ^ t"
      using assms(3) by (intro mult_right_mono) simp_all
    also have "\<dots> = (2::int) ^ (52 + Suc t)"
      by (simp add: power_add)
    also have "\<dots> \<le> 2 ^ (52 + k)"
      using kt by (intro power_increasing) simp_all
    finally show ?thesis
      using R by linarith
  qed
qed

lemma round_mag_nonneg: "0 \<le> round_mag y"
  using round_mag_lower[of 0 0 0 y] by simp

lemma round_mag_zero: "round_mag 0 = 0"
  using round_mag_exact[of 0 0 0] by simp

lemma round_mag_error:
  "\<bar>real_of_int (round_mag y) - \<bar>y\<bar> * 2 ^ 1074\<bar> \<le> 1 / 2 + \<bar>y\<bar> * 2 ^ 1074 / 2 ^ 53"
proof -
  define Y where "Y = \<bar>y\<bar> * 2 ^ 1074"
  define k where "k = nat (bitlen \<lfloor>Y\<rfloor> - 53)"
  have Y0: "0 \<le> Y" by (simp add: Y_def)
  have "real_of_int (round_mag y) - Y = (real_of_int (round_even (Y / 2 ^ k)) - Y / 2 ^ k) * 2 ^ k"
    unfolding round_mag_alt[OF Y_def k_def] by (simp add: algebra_simps)
  then have "\<bar>real_of_int (round_mag y) - Y\<bar> = \<bar>real_of_int (round_even (Y / 2 ^ k)) - Y / 2 ^ k\<bar> * 2 ^ k"
    by (simp add: abs_mult)
  also have "\<dots> \<le> 1 / 2 * 2 ^ k"
    using round_even_error[of "Y / 2 ^ k"] by (intro mult_right_mono) simp_all
  finally have e: "\<bar>real_of_int (round_mag y) - Y\<bar> \<le> 2 ^ k / 2"
    by simp
  have "2 ^ k / 2 \<le> 1 / 2 + Y / 2 ^ 53"
  proof (cases "k = 0")
    case True
    then show ?thesis using Y0 by simp
  next
    case False
    then have b: "54 \<le> bitlen \<lfloor>Y\<rfloor>" and kb: "int k = bitlen \<lfloor>Y\<rfloor> - 53"
      unfolding k_def by linarith+
    then have pos: "0 < \<lfloor>Y\<rfloor>"
      using bitlen_eq_zero_iff[of "\<lfloor>Y\<rfloor>"] by linarith
    have "nat (bitlen \<lfloor>Y\<rfloor> - 1) = 52 + k"
      using kb by linarith
    with bitlen_bounds[OF pos] have "2 ^ (52 + k) \<le> \<lfloor>Y\<rfloor>"
      by simp
    then have "real_of_int (2 ^ (52 + k)) \<le> Y"
      using le_floor_iff by blast
    then have "(2::real) ^ 52 * 2 ^ k \<le> Y"
      by (simp add: power_add)
    then have "(2::real) ^ k / 2 \<le> Y / 2 ^ 53"
      by (simp add: field_simps)
    then show ?thesis by simp
  qed
  with e show ?thesis
    unfolding Y_def by linarith
qed


lemma round64_exact:
  assumes "\<bar>x\<bar> * 2 ^ 1074 = real_of_int (m * 2 ^ t)" and "0 \<le> m" and "m < 2 ^ 53"
    and "m * 2 ^ t < 2 ^ 2098"
  shows "round64 x = Finite x"
proof -
  define S :: real where "S = 2 ^ 1074"
  have S: "0 < S" by (simp add: S_def)
  have R: "round_mag x = m * 2 ^ t"
    using assms(1-3) by (rule round_mag_exact)
  have "real_of_int (round_mag x) = \<bar>x\<bar> * S"
    unfolding R S_def assms(1) ..
  then have "sgn x * real_of_int (round_mag x) / S = sgn x * \<bar>x\<bar>"
    using S by simp
  also have "\<dots> = x" by (simp add: sgn_mult_abs)
  finally have "Finite (sgn x * real_of_int (round_mag x) / S) = Finite x"
    by simp
  moreover have "\<not> 2 ^ 2098 \<le> round_mag x"
    unfolding R using assms(4) by linarith
  ultimately show ?thesis
    unfolding round64_def S_def by (simp only: if_False)
qed

lemma round64_zero: "round64 0 = Finite 0"
  using round64_exact[of 0 0 0] by simp

lemma round64_of_int:
  assumes "\<bar>n\<bar> < 2 ^ 53"
  shows "round64 (real_of_int n) = Finite (real_of_int n)"
proof -
  have "\<bar>n\<bar> * 2 ^ 1074 < 2 ^ 53 * (2::int) ^ 1074"
    using assms by (intro mult_strict_right_mono) simp_all
  also have "\<dots> \<le> 2 ^ 2098" by simp
  finally have "\<bar>n\<bar> * 2 ^ 1074 < (2::int) ^ 2098" .
  moreover have "\<bar>real_of_int n\<bar> * 2 ^ 1074 = real_of_int (\<bar>n\<bar> * 2 ^ 1074)"
    by simp
  ultimately show ?thesis
    using assms by (intro round64_exact[where m = "\<bar>n\<bar>" and t = 1074]) simp_all
qed

lemma round64_dyadic:
  assumes "x = real_of_int n / 2 ^ j" and "\<bar>n\<bar> < 2 ^ 53" and "j \<le> 1074"
  shows "round64 x = Finite x"
proof -
  define i where "i = 1074 - j"
  have i: "1074 = i + j" using assms(3) by (simp add: i_def)
  have "\<bar>x\<bar> * 2 ^ (i + j) = real_of_int (\<bar>n\<bar> * 2 ^ i)"
    by (simp add: assms(1) abs_divide power_add)
  then have e: "\<bar>x\<bar> * 2 ^ 1074 = real_of_int (\<bar>n\<bar> * 2 ^ i)"
    by (simp only: i[symmetric])
  have "\<bar>n\<bar> * 2 ^ i < 2 ^ 53 * (2::int) ^ i"
    using assms(2) by (intro mult_strict_right_mono) simp_all
  also have "\<dots> = 2 ^ (53 + i)" by (simp only: power_add)
  also have "\<dots> \<le> (2::int) ^ 2098"
    using i by (intro power_increasing) simp_all
  finally have "\<bar>n\<bar> * 2 ^ i < (2::int) ^ 2098" .
  with e assms(2) show ?thesis
    by (intro round64_exact[where m = "\<bar>n\<bar>" and t = i]) simp_all
qed

lemma round64_unfold:
  assumes "S = 2 ^ 1074" and "T = 2 ^ 2098"
  shows "round64 x =
     (if T \<le> round_mag x then signed_inf (0 < x)
      else Finite (sgn x * real_of_int (round_mag x) / S))"
  unfolding round64_def assms ..

lemma round64_nonneg_cases:
  assumes "0 \<le> y"
  shows "round64 y = PInf \<or> (\<exists>s. round64 y = Finite s \<and> 0 \<le> s)"
proof -
  define S :: real where "S = 2 ^ 1074"
  define T :: int where "T = 2 ^ 2098"
  have S: "0 < S" and T: "0 < T" by (simp_all add: S_def T_def)
  note u = round64_unfold[OF S_def T_def]
  show ?thesis
  proof (cases "T \<le> round_mag y")
    case True
    then have "y \<noteq> 0" using round_mag_zero T by auto
    with assms have "0 < y" by simp
    with True show ?thesis by (simp add: u signed_inf_def)
  next
    case False
    have "0 \<le> sgn y * real_of_int (round_mag y) / S"
      using assms round_mag_nonneg[of y] S by (simp add: sgn_real_def)
    with False show ?thesis by (simp add: u)
  qed
qed

lemma round64_upper:
  assumes "a * 2 ^ 1074 = real_of_int (m * 2 ^ t)" and "0 \<le> m" and "m < 2 ^ 53"
    and "m * 2 ^ t < 2 ^ 2098" and "0 \<le> y" and "y \<le> a"
  shows "\<exists>s. round64 y = Finite s \<and> 0 \<le> s \<and> s \<le> a"
proof -
  define S :: real where "S = 2 ^ 1074"
  define T :: int where "T = 2 ^ 2098"
  have S: "0 < S" by (simp add: S_def)
  note u = round64_unfold[OF S_def T_def]
  have "\<bar>y\<bar> \<le> a" using assms(5,6) by simp
  from round_mag_upper[OF assms(1-3) this] have R: "round_mag y \<le> m * 2 ^ t" .
  with assms(4) have fin: "\<not> T \<le> round_mag y" unfolding T_def by linarith
  have "real_of_int (round_mag y) \<le> a * S"
    unfolding S_def assms(1) using R by (simp only: of_int_le_iff)
  then have "real_of_int (round_mag y) / S \<le> a"
    using S by (simp add: pos_divide_le_eq)
  moreover have "0 \<le> real_of_int (round_mag y) / S"
    using round_mag_nonneg[of y] S by simp
  moreover have "0 \<le> a" using assms(5,6) by simp
  ultimately have "0 \<le> sgn y * real_of_int (round_mag y) / S"
    and "sgn y * real_of_int (round_mag y) / S \<le> a"
    using assms(5) by (simp_all add: sgn_real_def)
  with fin show ?thesis
    by (simp add: u)
qed

lemma round64_lower:
  assumes "a * 2 ^ 1074 = real_of_int (m * 2 ^ t)" and "0 \<le> m" and "m < 2 ^ 53"
    and "0 \<le> a" and "a \<le> y" and "round64 y = Finite s"
  shows "a \<le> s"
proof (cases "y = 0")
  case True
  with assms(4,5,6) show ?thesis by (simp add: round64_zero)
next
  case False
  define S :: real where "S = 2 ^ 1074"
  define T :: int where "T = 2 ^ 2098"
  have S: "0 < S" by (simp add: S_def)
  note u = round64_unfold[OF S_def T_def]
  from False assms(4,5) have y: "0 < y" by simp
  have "a \<le> \<bar>y\<bar>" using assms(5) by simp
  from round_mag_lower[OF assms(1-3) this] have "m * 2 ^ t \<le> round_mag y" .
  then have "a * S \<le> real_of_int (round_mag y)"
    unfolding S_def assms(1) by (simp only: of_int_le_iff)
  then have "a \<le> real_of_int (round_mag y) / S"
    using S by (simp add: pos_le_divide_eq)
  moreover have "s = sgn y * real_of_int (round_mag y) / S"
    using assms(6) by (auto simp: u signed_inf_def split: if_splits)
  ultimately show ?thesis
    using y by simp
qed

lemma round64_error:
  assumes "round64 y = Finite s"
  shows "\<bar>s - y\<bar> \<le> \<bar>y\<bar> / 2 ^ 53 + 1 / 2 ^ 1075"
proof -
  define S :: real where "S = 2 ^ 1074"
  define T :: int where "T = 2 ^ 2098"
  have S: "0 < S" by (simp add: S_def)
  note u = round64_unfold[OF S_def T_def]
  have s: "s = sgn y * real_of_int (round_mag y) / S"
    using assms by (auto simp: u signed_inf_def split: if_splits)
  have "y = sgn y * \<bar>y\<bar>" by (simp add: sgn_mult_abs)
  then have "y = sgn y * (\<bar>y\<bar> * S) / S"
    using S by simp
  then have "s - y = sgn y * (real_of_int (round_mag y) - \<bar>y\<bar> * S) / S"
    unfolding s by (simp add: algebra_simps diff_divide_distrib)
  then have "\<bar>s - y\<bar> = \<bar>sgn y\<bar> * \<bar>real_of_int (round_mag y) - \<bar>y\<bar> * S\<bar> / S"
    using S by (simp add: abs_mult)
  also have "\<dots> \<le> 1 * \<bar>real_of_int (round_mag y) - \<bar>y\<bar> * S\<bar> / S"
    using S by (intro divide_right_mono mult_right_mono) (simp_all add: sgn_real_def)
  also have "\<dots> \<le> (1 / 2 + \<bar>y\<bar> * S / 2 ^ 53) / S"
    using round_mag_error[of y] S unfolding S_def[symmetric]
    by (intro divide_right_mono) simp_all
  also have "\<dots> = \<bar>y\<bar> / 2 ^ 53 + 1 / (2 * S)"
    using S by (simp add: field_simps)
  also have "2 * S = 2 ^ 1075"
    by (simp add: S_def)
  finally show ?thesis .
qed

subsection \<open>The parts of sleep\<close>

lemma updateStatistics_fields:
  "name (updateStatistics r) = name r"
  "timeStep (updateStatistics r) = timeStep r"
  "maxTimeStepWarning (updateStatistics r) = maxTimeStepWarning r"
  "maxTimeStepError (updateStatistics r) = maxTimeStepError r"
  "enforceRate (updateStatistics r) = enforceRate r"
  "clockId (updateStatistics r) = clockId r"
  "sleepStartTime (updateStatistics r) = sleepStartTime r"
  "sleepEndTime (updateStatistics r) = sleepEndTime r"
  "stepTime (updateStatistics r) = stepTime r"
  "numTimeSteps (updateStatistics r) = numTimeSteps r + 1"
  "numWarnings (updateStatistics r) = numWarnings r"
  "numErrors (updateStatistics r) = numErrors r"
  "awakeTime (updateStatistics r) = awakeTime r"
  by (simp_all add: updateStatistics_def Let_def)

lemma checkThresholds_fields:
  "name (fst (checkThresholds r)) = name r"
  "timeStep (fst (checkThresholds r)) = timeStep r"
  "maxTimeStepWarning (fst (checkThresholds r)) = maxTimeStepWarning r"
  "maxTimeStepError (fst (checkThresholds r)) = maxTimeStepError r"
  "enforceRate (fst (checkThresholds r)) = enforceRate r"
  "clockId (fst (checkThresholds r)) = clockId r"
  "sleepStartTime (fst (checkThresholds r)) = sleepStartTime r"
  "sleepEndTime (fst (checkThresholds r)) = sleepEndTime r"
  "stepTime (fst (checkThresholds r)) = stepTime r"
  "numTimeSteps (fst (checkThresholds r)) = numTimeSteps r"
  "awakeTime (fst (checkThresholds r)) = awakeTime r"
  "awakeTimeMean (fst (checkThresholds r)) = awakeTimeMean r"
  "awakeTimeM2 (fst (checkThresholds r)) = awakeTimeM2 r"
  by (simp_all add: checkThresholds_def)

lemma measured_fields:
  "name (fst (measured now1 a r)) = name r"
  "timeStep (fst (measured now1 a r)) = timeStep r"
  "maxTimeStepWarning (fst (measured now1 a r)) = maxTimeStepWarning r"
  "maxTimeStepError (fst (measured now1 a r)) = maxTimeStepError r"
  "enforceRate (fst (measured now1 a r)) = enforceRate r"
  "clockId (fst (measured now1 a r)) = clockId r"
  "sleepStartTime (fst (measured now1 a r)) = now1"
  "sleepEndTime (fst (measured now1 a r)) = sleepEndTime r"
  "stepTime (fst (measured now1 a r)) = stepTime r"
  "numTimeSteps (fst (measured now1 a r)) = numTimeSteps r + 1"
  "awakeTime (fst (measured now1 a r)) = a"
  by (simp_all add: measured_def checkThresholds_fields updateStatistics_fields)


lemma policy_fields:
  "name (fst (policy now2 next d r)) = name r"
  "timeStep (fst (policy now2 next d r)) = timeStep r"
  "maxTimeStepWarning (fst (policy now2 next d r)) = maxTimeStepWarning r"
  "maxTimeStepError (fst (policy now2 next d r)) = maxTimeStepError r"
  "enforceRate (fst (policy now2 next d r)) = enforceRate r"
  "clockId (fst (policy now2 next d r)) = clockId r"
  "sleepStartTime (fst (policy now2 next d r)) = sleepStartTime r"
  "numTimeSteps (fst (policy now2 next d r)) = numTimeSteps r"
  "numWarnings (fst (policy now2 next d r)) = numWarnings r"
  "numErrors (fst (policy now2 next d r)) = numErrors r"
  "awakeTime (fst (policy now2 next d r)) = awakeTime r"
  "awakeTimeMean (fst (policy now2 next d r)) = awakeTimeMean r"
  "awakeTimeM2 (fst (policy now2 next d r)) = awakeTimeM2 r"
  by (simp_all add: policy_def)

lemma policy_schedule:
  "stepTime (fst (policy now2 next d r)) =
     (if dless d (Finite 0) \<and> \<not> enforceRate r then now2 else next)"
  "sleepEndTime (fst (policy now2 next d r)) = (if dless d (Finite 0) then now2 else next)"
  "snd (policy now2 next d r) =
     (if dless d (Finite 0) then Returned else SleptUntil (clockId r) next)"
  by (simp_all add: policy_def)

lemma sleep_unfold:
  "sleep now1 now2 r =
    (case GetDuration (sleepEndTime r) now1 of None \<Rightarrow> None
     | Some awake \<Rightarrow>
        (case nextStepTime (timeStep r) (stepTime r) of None \<Rightarrow> None
         | Some next \<Rightarrow>
            (case GetDuration now2 next of None \<Rightarrow> None
             | Some d \<Rightarrow>
                Some (fst (policy now2 next d (fst (measured now1 awake r))),
                      snd (measured now1 awake r),
                      snd (policy now2 next d (fst (measured now1 awake r)))))))"
  unfolding sleep_def Let_def
  by (simp add: case_prod_beta measured_def policy_def checkThresholds_fields
      updateStatistics_fields split: Option.bind_split option.split)

lemma sleep_SomeD:
  assumes "sleep now1 now2 r = Some (r', diags, out)"
  obtains awake "next" d where
    "GetDuration (sleepEndTime r) now1 = Some awake"
    "nextStepTime (timeStep r) (stepTime r) = Some next"
    "GetDuration now2 next = Some d"
    "r' = fst (policy now2 next d (fst (measured now1 awake r)))"
    "diags = snd (measured now1 awake r)"
    "out = snd (policy now2 next d (fst (measured now1 awake r)))"
  using assms unfolding sleep_unfold
  by (auto split: option.splits)

subsection \<open>The next step time\<close>

lemma cdiv_crem: "NSecPerSec * cdiv a NSecPerSec + crem a NSecPerSec = a"
  by (simp add: crem_def)

lemma cdiv_nonneg: "0 \<le> a \<Longrightarrow> cdiv a NSecPerSec = a div NSecPerSec"
  by (simp add: cdiv_def NSecPerSec_def)

lemma crem_nonneg: "0 \<le> a \<Longrightarrow> crem a NSecPerSec = a mod NSecPerSec"
  by (simp add: crem_def cdiv_nonneg minus_mult_div_eq_mod)

lemma truncate_real_floor: "0 \<le> x \<Longrightarrow> truncate_real x = \<lfloor>x\<rfloor>"
  by (simp add: truncate_real_def)

lemma fl_of_long:
  "\<bar>n\<bar> < 2 ^ 53 \<Longrightarrow> fl (double_of_long n) = Finite (real_of_int n)"
  by (simp add: double_of_long_def round64_of_int)

lemma fl_NSecPerSec: "fl (double_of_long NSecPerSec) = Finite 1000000000"
  using fl_of_long[of NSecPerSec] by (simp add: NSecPerSec_def)

lemma step_ns_Finite: "step_ns (Finite x) = round64 (x * 1000000000)"
  by (simp add: step_ns_def fl_NSecPerSec)

lemma step_ns_nonneg:
  assumes "0 \<le> x"
  shows "step_ns (Finite x) = PInf \<or> (\<exists>p. step_ns (Finite x) = Finite p \<and> 0 \<le> p)"
  unfolding step_ns_Finite using assms by (intro round64_nonneg_cases) simp


lemma step_ns_error:
  assumes "step_ns (Finite x) = Finite p" and "0 \<le> x"
  shows "\<bar>p - x * 1000000000\<bar> \<le> x * 1000000000 / 2 ^ 53 + 1 / 2 ^ 1075"
  using round64_error[OF assms(1)[unfolded step_ns_Finite]] assms(2) by simp

text \<open>The sum of the nanoseconds, still a double, that the assignment converts to long.\<close>

lemma nextStepTime_unfold:
  assumes "\<bar>tv_nsec st\<bar> < 2 ^ 53"
  shows "nextStepTime ts st =
     (case fl (dadd (Finite (real_of_int (tv_nsec st))) (step_ns ts)) of
        Finite s \<Rightarrow>
          (if in_long (truncate_real s) \<and>
              in_long (tv_sec st + cdiv (truncate_real s) NSecPerSec)
           then Some \<lparr>tv_sec = tv_sec st + cdiv (truncate_real s) NSecPerSec,
                      tv_nsec = crem (truncate_real s) NSecPerSec\<rparr>
           else None)
      | _ \<Rightarrow> None)"
  by (simp add: nextStepTime_def step_ns_def fl_of_long[OF assms] long_of_def
      split: double.split)

lemma normalized_small: "normalized st \<Longrightarrow> \<bar>tv_nsec st\<bar> < 2 ^ 53"
  by (simp add: normalized_def NSecPerSec_def)

lemma nextStepTime_SomeD:
  assumes "nextStepTime (Finite x) st = Some t" and "0 \<le> x" and "normalized st"
  obtains p s where "step_ns (Finite x) = Finite p" "0 \<le> p"
    "round64 (real_of_int (tv_nsec st) + p) = Finite s" "real_of_int (tv_nsec st) \<le> s"
    "in_long \<lfloor>s\<rfloor>"
    "to_ns t = tv_sec st * NSecPerSec + \<lfloor>s\<rfloor>" "tv_nsec t = \<lfloor>s\<rfloor> mod NSecPerSec"
proof -
  have n: "0 \<le> tv_nsec st" "tv_nsec st < 2 ^ 53"
    using assms(3) by (simp_all add: normalized_def NSecPerSec_def)
  note u = nextStepTime_unfold[OF normalized_small[OF assms(3)], of "Finite x"]
  from step_ns_nonneg[OF assms(2)] obtain p where p: "step_ns (Finite x) = Finite p" "0 \<le> p"
    using assms(1) unfolding u by auto
  from assms(1) obtain s where s: "round64 (real_of_int (tv_nsec st) + p) = Finite s"
    and l: "in_long (truncate_real s)"
    and t: "t = \<lparr>tv_sec = tv_sec st + cdiv (truncate_real s) NSecPerSec,
                  tv_nsec = crem (truncate_real s) NSecPerSec\<rparr>"
    unfolding u p(1) by (auto split: double.splits if_splits)
  have "real_of_int (tv_nsec st) * 2 ^ 1074 = real_of_int (tv_nsec st * 2 ^ 1074)"
    by simp
  from round64_lower[OF this n(1) n(2) _ _ s] have ge: "real_of_int (tv_nsec st) \<le> s"
    using n(1) p(2) by simp
  then have s0: "0 \<le> s" using n(1) by linarith
  then have tr: "truncate_real s = \<lfloor>s\<rfloor>" by (rule truncate_real_floor)
  have f0: "0 \<le> \<lfloor>s\<rfloor>" using s0 by simp
  have "to_ns t = tv_sec st * NSecPerSec + (NSecPerSec * cdiv \<lfloor>s\<rfloor> NSecPerSec + crem \<lfloor>s\<rfloor> NSecPerSec)"
    by (simp add: t tr to_ns_def algebra_simps)
  then have "to_ns t = tv_sec st * NSecPerSec + \<lfloor>s\<rfloor>"
    by (simp only: cdiv_crem)
  moreover have "tv_nsec t = \<lfloor>s\<rfloor> mod NSecPerSec"
    by (simp add: t tr crem_nonneg[OF f0])
  ultimately show ?thesis
    using that[OF p s ge] l tr by simp
qed

lemma nextStepTime_forward:
  assumes "nextStepTime ts st = Some t" and "TimeStepIsValid ts" and "normalized st"
  shows "to_ns st \<le> to_ns t"
proof -
  from assms(2) obtain x where x: "ts = Finite x" "0 \<le> x"
    by (auto simp: TimeStepIsValid_iff)
  from assms(1)[unfolded x(1)] x(2) assms(3) obtain p s where
    "real_of_int (tv_nsec st) \<le> s" "to_ns t = tv_sec st * NSecPerSec + \<lfloor>s\<rfloor>"
    by (rule nextStepTime_SomeD)
  then show ?thesis
    by (simp add: to_ns_def le_floor_iff)
qed

lemma nextStepTime_normalized:
  assumes "nextStepTime ts st = Some t" and "TimeStepIsValid ts" and "normalized st"
  shows "normalized t"
proof -
  from assms(2) obtain x where x: "ts = Finite x" "0 \<le> x"
    by (auto simp: TimeStepIsValid_iff)
  from assms(1)[unfolded x(1)] x(2) assms(3) obtain p s where
    "step_ns (Finite x) = Finite p" "tv_nsec t = \<lfloor>s :: real\<rfloor> mod NSecPerSec"
    by (rule nextStepTime_SomeD)
  then show ?thesis
    by (simp add: normalized_def NSecPerSec_def)
qed

lemma round64_le_scaled:
  assumes "0 \<le> y" and "y \<le> real_of_int (m * 2 ^ j)" and "0 \<le> m" and "m < 2 ^ 53"
    and "j \<le> 971"
  shows "\<exists>s. round64 y = Finite s \<and> 0 \<le> s \<and> s \<le> real_of_int (m * 2 ^ j)"
proof -
  have e: "real_of_int (m * 2 ^ j) * 2 ^ 1074 = real_of_int (m * 2 ^ (j + 1074))"
    by (simp add: power_add)
  have "m * 2 ^ (j + 1074) < 2 ^ 53 * (2::int) ^ (j + 1074)"
    using assms(4) by (intro mult_strict_right_mono) simp_all
  also have "\<dots> = 2 ^ (53 + (j + 1074))" by (simp only: power_add)
  also have "\<dots> \<le> (2::int) ^ 2098"
    using assms(5) by (intro power_increasing) simp_all
  finally have "m * 2 ^ (j + 1074) < (2::int) ^ 2098" .
  from round64_upper[OF e assms(3,4) this assms(1,2)] show ?thesis .
qed

lemma round64_ge_scaled:
  assumes "real_of_int (m * 2 ^ j) \<le> y" and "0 \<le> m" and "m < 2 ^ 53"
    and "round64 y = Finite s"
  shows "real_of_int (m * 2 ^ j) \<le> s"
proof -
  have e: "real_of_int (m * 2 ^ j) * 2 ^ 1074 = real_of_int (m * 2 ^ (j + 1074))"
    by (simp add: power_add)
  have "0 \<le> real_of_int (m * 2 ^ j)"
    using assms(2) by simp
  from round64_lower[OF e assms(2,3) this assms(1,4)] show ?thesis .
qed

lemma round64_le_int:
  assumes "0 \<le> y" and "y \<le> real_of_int n" and "n < 2 ^ 53"
  shows "\<exists>s. round64 y = Finite s \<and> 0 \<le> s \<and> s \<le> real_of_int n"
proof -
  have "0 \<le> n" using assms(1,2) by linarith
  with round64_le_scaled[of y n 0] assms show ?thesis by simp
qed

lemma round64_ge_int:
  assumes "real_of_int n \<le> y" and "0 \<le> n" and "n < 2 ^ 53" and "round64 y = Finite s"
  shows "real_of_int n \<le> s"
  using round64_ge_scaled[of n 0 y s] assms by simp

lemma round64_scaled:
  assumes "0 \<le> m" and "m < 2 ^ 53" and "j \<le> 971"
  shows "round64 (real_of_int (m * 2 ^ j)) = Finite (real_of_int (m * 2 ^ j))"
proof -
  have "0 \<le> real_of_int (m * 2 ^ j)" using assms(1) by simp
  from round64_le_scaled[OF this order_refl assms] obtain s where
    s: "round64 (real_of_int (m * 2 ^ j)) = Finite s" "s \<le> real_of_int (m * 2 ^ j)"
    by blast
  from round64_ge_scaled[OF order_refl assms(1,2) s(1)] s show ?thesis
    by simp
qed

text \<open>
  For a time step of up to nine million seconds the nanoseconds of a step and every sum
  with the nanoseconds of a normalized timestamp are below \<open>2^53\<close>, where every whole
  number is a double: the sum, rounded and converted, advances by the nanoseconds of the
  step rounded down or up to a whole number.
\<close>

lemma step_ns_small:
  assumes "0 \<le> x" and "x \<le> 9000000"
  shows "\<exists>p. step_ns (Finite x) = Finite p \<and> 0 \<le> p \<and> p \<le> 9000000000000000"
proof -
  have "0 \<le> x * 1000000000" "x * 1000000000 \<le> real_of_int 9000000000000000"
    using assms by simp_all
  from round64_le_int[OF this] show ?thesis
    by (simp add: step_ns_Finite)
qed

lemma step_ns_long: "step_ns (Finite 10000000000) = Finite 10000000000000000000"
  using round64_scaled[of 19073486328125 19] by (simp add: step_ns_Finite)

lemma step_ns_quarter: "step_ns (Finite (1 / 4)) = Finite 250000000"
  using round64_of_int[of 250000000] by (simp add: step_ns_Finite)

lemma step_ns_1024: "step_ns (Finite (1 / 1024)) = Finite (1953125 / 2)"
  using round64_dyadic[of "1953125 / 2" 1953125 1] by (simp add: step_ns_Finite)

lemma nextStepTime_advance:
  assumes "nextStepTime (Finite x) st = Some t" and "0 \<le> x" and "x \<le> 9000000"
    and "normalized st"
  shows "to_ns st + \<lfloor>the_finite (step_ns (Finite x))\<rfloor> \<le> to_ns t"
    and "to_ns t \<le> to_ns st + \<lceil>the_finite (step_ns (Finite x))\<rceil>"
proof -
  from assms(1,2,4) obtain p s where
    p: "step_ns (Finite x) = Finite p" "0 \<le> p" and
    s: "round64 (real_of_int (tv_nsec st) + p) = Finite s" and
    t: "to_ns t = tv_sec st * NSecPerSec + \<lfloor>s\<rfloor>"
    by (rule nextStepTime_SomeD)
  from step_ns_small[OF assms(2,3)] p have pb: "p \<le> 9000000000000000"
    by simp
  have n: "0 \<le> tv_nsec st" "tv_nsec st < 1000000000"
    using assms(4) by (simp_all add: normalized_def NSecPerSec_def)
  have f: "0 \<le> \<lfloor>p\<rfloor>" "\<lfloor>p\<rfloor> \<le> 9000000000000000" "\<lceil>p\<rceil> \<le> 9000000000000000"
    using p(2) pb by (simp_all add: floor_le_iff ceiling_le_iff)
  have "real_of_int (tv_nsec st + \<lfloor>p\<rfloor>) \<le> real_of_int (tv_nsec st) + p"
    by simp
  from round64_ge_int[OF this _ _ s] n f have "real_of_int (tv_nsec st + \<lfloor>p\<rfloor>) \<le> s"
    by simp
  then have lo: "tv_nsec st + \<lfloor>p\<rfloor> \<le> \<lfloor>s\<rfloor>"
    by (simp only: le_floor_iff)
  have "0 \<le> real_of_int (tv_nsec st) + p"
    "real_of_int (tv_nsec st) + p \<le> real_of_int (tv_nsec st + \<lceil>p\<rceil>)"
    using n(1) p(2) by simp_all
  from round64_le_int[OF this] n f s have "s \<le> real_of_int (tv_nsec st + \<lceil>p\<rceil>)"
    by simp
  then have hi: "\<lfloor>s\<rfloor> \<le> tv_nsec st + \<lceil>p\<rceil>"
    by (simp only: floor_le_iff)
  have st: "to_ns st = tv_sec st * NSecPerSec + tv_nsec st"
    by (simp add: to_ns_def)
  show "to_ns st + \<lfloor>the_finite (step_ns (Finite x))\<rfloor> \<le> to_ns t"
    unfolding p the_finite.simps t st using lo by linarith
  show "to_ns t \<le> to_ns st + \<lceil>the_finite (step_ns (Finite x))\<rceil>"
    unfolding p the_finite.simps t st using hi by linarith
qed


text \<open>
  Whatever the time step, an advance that has a result differs from the nanoseconds of
  the step by the fraction the conversion drops and the rounding error of the sum: by
  less than a nanosecond and a relative \<open>2^-53\<close> of the sum. So do \<open>n\<close> advances in a
  row, \<open>n\<close> times over.
\<close>

lemma nextStepTime_error:
  assumes "nextStepTime (Finite x) st = Some t" and "0 \<le> x" and "normalized st"
  shows "\<bar>real_of_int (to_ns t - to_ns st) - the_finite (step_ns (Finite x))\<bar>
    \<le> 1 + (1000000000 + the_finite (step_ns (Finite x))) / 2 ^ 53 + 1 / 2 ^ 1075"
proof -
  from assms obtain p s where
    p: "step_ns (Finite x) = Finite p" "0 \<le> p" and
    s: "round64 (real_of_int (tv_nsec st) + p) = Finite s" and
    t: "to_ns t = tv_sec st * NSecPerSec + \<lfloor>s\<rfloor>"
    by (rule nextStepTime_SomeD)
  have n: "0 \<le> tv_nsec st" "tv_nsec st < 1000000000"
    using assms(3) by (simp_all add: normalized_def NSecPerSec_def)
  define y where "y = real_of_int (tv_nsec st) + p"
  define e :: real where "e = 1 / 2 ^ 1075"
  have y: "0 \<le> y" "y \<le> 1000000000 + p"
    using n p(2) by (simp_all add: y_def)
  have "\<bar>s - y\<bar> \<le> \<bar>y\<bar> / 2 ^ 53 + e"
    using round64_error[OF s] by (simp add: y_def e_def)
  also have "\<bar>y\<bar> / 2 ^ 53 \<le> (1000000000 + p) / 2 ^ 53"
    using y by (intro divide_right_mono) simp_all
  finally have sy: "\<bar>s - y\<bar> \<le> (1000000000 + p) / 2 ^ 53 + e"
    by simp
  have fs: "real_of_int \<lfloor>s\<rfloor> \<le> s" "s < real_of_int \<lfloor>s\<rfloor> + 1"
    by linarith+
  have "to_ns st = tv_sec st * NSecPerSec + tv_nsec st"
    by (simp add: to_ns_def)
  then have "to_ns t - to_ns st = \<lfloor>s\<rfloor> - tv_nsec st"
    unfolding t by linarith
  then have "real_of_int (to_ns t - to_ns st) - p = real_of_int \<lfloor>s\<rfloor> - y"
    by (simp add: y_def)
  moreover have "\<bar>real_of_int \<lfloor>s\<rfloor> - y\<bar> \<le> 1 + (1000000000 + p) / 2 ^ 53 + e"
    using sy fs by (simp add: abs_le_iff) linarith
  ultimately show ?thesis
    by (simp add: p e_def)
qed

lemma advances_error:
  assumes "advances n (Finite x) st = Some t" and "0 \<le> x" and "normalized st"
  shows "normalized t \<and>
    \<bar>real_of_int (to_ns t - to_ns st) - real n * the_finite (step_ns (Finite x))\<bar>
      \<le> real n * (1 + (1000000000 + the_finite (step_ns (Finite x))) / 2 ^ 53 + 1 / 2 ^ 1075)"
  using assms(1,3)
proof (induction n arbitrary: st)
  case 0
  then show ?case by simp
next
  case (Suc n)
  define P where "P = the_finite (step_ns (Finite x))"
  define E where "E = 1 + (1000000000 + P) / 2 ^ 53 + 1 / 2 ^ 1075"
  from Suc.prems(1) obtain u where
    u: "nextStepTime (Finite x) st = Some u" and rest: "advances n (Finite x) u = Some t"
    by (auto split: option.splits)
  have v: "TimeStepIsValid (Finite x)"
    using assms(2) by (simp add: TimeStepIsValid_def)
  from u v Suc.prems(2) have nu: "normalized u"
    by (rule nextStepTime_normalized)
  from Suc.IH[OF rest nu] have nt: "normalized t"
    and ih: "\<bar>real_of_int (to_ns t - to_ns u) - real n * P\<bar> \<le> real n * E"
    by (simp_all add: P_def E_def)
  have one: "\<bar>real_of_int (to_ns u - to_ns st) - P\<bar> \<le> E"
    using nextStepTime_error[OF u assms(2) Suc.prems(2)] by (simp add: P_def E_def)
  have "real_of_int (to_ns t - to_ns st) - real (Suc n) * P
      = (real_of_int (to_ns t - to_ns u) - real n * P) + (real_of_int (to_ns u - to_ns st) - P)"
    by (simp add: algebra_simps)
  then have "\<bar>real_of_int (to_ns t - to_ns st) - real (Suc n) * P\<bar> \<le> real n * E + E"
    using ih one by linarith
  also have "real n * E + E = real (Suc n) * E"
    by (simp add: algebra_simps)
  finally show ?case
    using nt by (simp only: P_def E_def simp_thms)
qed

lemma advances_bounds:
  assumes "advances n (Finite x) st = Some t" and "0 \<le> x" and "x \<le> 9000000"
    and "normalized st"
  shows "to_ns st + int n * \<lfloor>the_finite (step_ns (Finite x))\<rfloor> \<le> to_ns t \<and>
    to_ns t \<le> to_ns st + int n * \<lceil>the_finite (step_ns (Finite x))\<rceil>"
  using assms(1,4)
proof (induction n arbitrary: st)
  case 0
  then show ?case by simp
next
  case (Suc n)
  define K where "K = \<lfloor>the_finite (step_ns (Finite x))\<rfloor>"
  define L where "L = \<lceil>the_finite (step_ns (Finite x))\<rceil>"
  from Suc.prems(1) obtain u where
    u: "nextStepTime (Finite x) st = Some u" and rest: "advances n (Finite x) u = Some t"
    by (auto split: option.splits)
  have v: "TimeStepIsValid (Finite x)"
    using assms(2) by (simp add: TimeStepIsValid_def)
  from u v Suc.prems(2) have nu: "normalized u"
    by (rule nextStepTime_normalized)
  from nextStepTime_advance[OF u assms(2,3) Suc.prems(2)]
  have one: "to_ns st + K \<le> to_ns u" "to_ns u \<le> to_ns st + L"
    by (simp_all add: K_def L_def)
  from Suc.IH[OF rest nu]
  have ih: "to_ns u + int n * K \<le> to_ns t" "to_ns t \<le> to_ns u + int n * L"
    by (simp_all add: K_def L_def)
  have "to_ns st + int (Suc n) * K \<le> to_ns t"
    using one(1) ih(1) by (simp add: algebra_simps)
  moreover have "to_ns t \<le> to_ns st + int (Suc n) * L"
    using one(2) ih(2) by (simp add: algebra_simps)
  ultimately show ?case
    unfolding K_def L_def by blast
qed

text \<open>
  A time step whose nanoseconds are a whole number over a power of two, small enough for
  the sums to be doubles: the product and the sum are exact, and the conversion drops the
  fraction.
\<close>

lemma nextStepTime_dyadic:
  assumes "x * 1000000000 = real_of_int m / 2 ^ j" and "0 \<le> m" and "j \<le> 1074"
    and "normalized st" and "tv_nsec st * 2 ^ j + m < 2 ^ 53" and "\<bar>tv_sec st\<bar> < 2 ^ 61"
  shows "nextStepTime (Finite x) st =
     Some \<lparr>tv_sec = tv_sec st + (tv_nsec st + m div 2 ^ j) div NSecPerSec,
           tv_nsec = (tv_nsec st + m div 2 ^ j) mod NSecPerSec\<rparr>"
proof -
  have n: "0 \<le> tv_nsec st" "tv_nsec st < 1000000000"
    using assms(4) by (simp_all add: normalized_def NSecPerSec_def)
  have j: "(0::int) < 2 ^ j" by simp
  have "0 \<le> tv_nsec st * 2 ^ j" using n(1) by simp
  with assms(5) have m: "m < 2 ^ 53" by linarith
  have p: "step_ns (Finite x) = Finite (real_of_int m / 2 ^ j)"
    unfolding step_ns_Finite assms(1)
    using assms(2,3) m by (intro round64_dyadic[where n = m and j = j]) simp_all
  have "real_of_int (tv_nsec st) + real_of_int m / 2 ^ j
      = real_of_int (tv_nsec st * 2 ^ j + m) / 2 ^ j"
    by (simp add: field_simps)
  moreover have "\<bar>tv_nsec st * 2 ^ j + m\<bar> < 2 ^ 53"
    using assms(2,5) n(1) by simp
  ultimately have s: "round64 (real_of_int (tv_nsec st) + real_of_int m / 2 ^ j)
      = Finite (real_of_int (tv_nsec st) + real_of_int m / 2 ^ j)"
    using assms(3) by (intro round64_dyadic[where n = "tv_nsec st * 2 ^ j + m" and j = j]) simp_all
  have d0: "0 \<le> m div 2 ^ j"
    using assms(2) by (simp add: pos_imp_zdiv_nonneg_iff)
  have fl: "\<lfloor>real_of_int m / 2 ^ j\<rfloor> = m div 2 ^ j"
    by (metis floor_divide_of_int_eq of_int_numeral of_int_power)
  have "0 \<le> real_of_int m / 2 ^ j" using assms(2) by simp
  then have tr: "truncate_real (real_of_int (tv_nsec st) + real_of_int m / 2 ^ j)
      = tv_nsec st + m div 2 ^ j"
    using n(1) by (simp add: truncate_real_floor fl)
  have "m div 2 ^ j \<le> m"
    using zdiv_mono2[of m 1 "2 ^ j"] assms(2) by simp
  moreover have "tv_nsec st \<le> tv_nsec st * 2 ^ j"
    using n(1) by (simp add: mult_le_cancel_left1)
  ultimately have hi: "tv_nsec st + m div 2 ^ j < 2 ^ 53"
    using assms(5) by linarith
  let ?n1 = "tv_nsec st + m div 2 ^ j"
  have n1: "0 \<le> ?n1" using n(1) d0 by simp
  have l1: "in_long ?n1"
    using n1 hi by (simp add: in_long_def)
  have q: "0 \<le> ?n1 div NSecPerSec" "?n1 div NSecPerSec < 2 ^ 53"
  proof -
    show "0 \<le> ?n1 div NSecPerSec"
      using n1 by (simp add: NSecPerSec_def pos_imp_zdiv_nonneg_iff)
    have "?n1 div NSecPerSec \<le> ?n1"
      using zdiv_mono2[of ?n1 1 NSecPerSec] n1 by (simp add: NSecPerSec_def)
    with hi show "?n1 div NSecPerSec < 2 ^ 53" by linarith
  qed
  have l2: "in_long (tv_sec st + ?n1 div NSecPerSec)"
    using q assms(6) by (simp add: in_long_def) linarith
  show ?thesis
    unfolding nextStepTime_unfold[OF normalized_small[OF assms(4)]] p
    using l1 l2 n1 by (simp add: s tr cdiv_nonneg crem_nonneg)
qed

text \<open>
  The advance has a result for every valid time step of up to 9223372035 seconds, on a
  timestamp in range: the nanoseconds of the step are at most the double
  \<open>9007199252929688 * 2^10\<close>, and their sum with less than \<open>10^9\<close> is at most the
  greatest double below \<open>2^63\<close>, which is \<open>(2^53 - 1) * 2^10\<close>.
\<close>

lemma step_ns_bounded:
  assumes "0 \<le> x" and "x \<le> 9223372035"
  shows "\<exists>p. step_ns (Finite x) = Finite p \<and> 0 \<le> p \<and> p \<le> 9223372035000000512"
proof -
  have "0 \<le> x * 1000000000" "x * 1000000000 \<le> real_of_int (9007199252929688 * 2 ^ 10)"
    using assms by simp_all
  from round64_le_scaled[OF this] show ?thesis
    by (simp add: step_ns_Finite)
qed

lemma nextStepTime_bounded:
  assumes "0 \<le> x" and "x \<le> 9223372035" and "in_range st"
  shows "\<exists>t. nextStepTime (Finite x) st = Some t \<and> normalized t \<and>
    tv_sec st \<le> tv_sec t \<and> tv_sec t \<le> tv_sec st + 9223372036"
proof -
  have norm: "normalized st" and sec: "\<bar>tv_sec st\<bar> < 2 ^ 61"
    using assms(3) by (simp_all add: in_range_def)
  have n: "0 \<le> tv_nsec st" "tv_nsec st < 1000000000"
    using norm by (simp_all add: normalized_def NSecPerSec_def)
  from step_ns_bounded[OF assms(1,2)] obtain p where
    p: "step_ns (Finite x) = Finite p" "0 \<le> p" "p \<le> 9223372035000000512"
    by blast
  have "0 \<le> real_of_int (tv_nsec st) + p"
    "real_of_int (tv_nsec st) + p \<le> real_of_int (9007199254740991 * 2 ^ 10)"
    using n p(2,3) by simp_all
  from round64_le_scaled[OF this] obtain s where
    s: "round64 (real_of_int (tv_nsec st) + p) = Finite s" "0 \<le> s" "s \<le> 9223372036854774784"
    by auto
  let ?n1 = "\<lfloor>s\<rfloor>"
  have n1: "0 \<le> ?n1" "?n1 \<le> 9223372036854774784"
    using s(2,3) by (simp_all add: floor_le_iff)
  have tr: "truncate_real s = ?n1"
    using s(2) by (rule truncate_real_floor)
  have l1: "in_long ?n1"
    using n1 by (simp add: in_long_def)
  have q: "0 \<le> ?n1 div NSecPerSec" "?n1 div NSecPerSec \<le> 9223372036"
  proof -
    show "0 \<le> ?n1 div NSecPerSec"
      using n1(1) by (simp add: NSecPerSec_def pos_imp_zdiv_nonneg_iff)
    have "?n1 div 1000000000 \<le> 9223372036854774784 div 1000000000"
      using n1(2) by (intro zdiv_mono1) simp_all
    then show "?n1 div NSecPerSec \<le> 9223372036"
      by (simp add: NSecPerSec_def)
  qed
  have l2: "in_long (tv_sec st + ?n1 div NSecPerSec)"
    using q sec by (simp add: in_long_def) linarith
  have "nextStepTime (Finite x) st =
      Some \<lparr>tv_sec = tv_sec st + ?n1 div NSecPerSec, tv_nsec = ?n1 mod NSecPerSec\<rparr>"
    unfolding nextStepTime_unfold[OF normalized_small[OF norm]] p(1)
    using l1 l2 n1(1) by (simp add: s(1) tr cdiv_nonneg crem_nonneg)
  moreover have "normalized \<lparr>tv_sec = tv_sec st + ?n1 div NSecPerSec, tv_nsec = ?n1 mod NSecPerSec\<rparr>"
    by (simp add: normalized_def NSecPerSec_def)
  ultimately show ?thesis
    using q by simp
qed

text \<open>
  The advance has no result for a valid time step of 9223372037 seconds or more: the
  nanoseconds of the step, and with them the sum, are at least \<open>2^63\<close>, or infinite.
\<close>

lemma nextStepTime_overflow:
  assumes "9223372037 \<le> x" and "normalized st"
  shows "nextStepTime (Finite x) st = None"
proof -
  have n: "0 \<le> tv_nsec st"
    using assms(2) by (simp add: normalized_def)
  have x0: "0 \<le> x" using assms(1) by simp
  have big: "real_of_int (1 * 2 ^ 63) \<le> x * 1000000000"
    using assms(1) by simp
  note u = nextStepTime_unfold[OF normalized_small[OF assms(2)], of "Finite x"]
  from step_ns_nonneg[OF x0] show ?thesis
  proof
    assume "step_ns (Finite x) = PInf"
    then show ?thesis by (simp add: u)
  next
    assume "\<exists>p. step_ns (Finite x) = Finite p \<and> 0 \<le> p"
    then obtain p where p: "step_ns (Finite x) = Finite p" by blast
    from round64_ge_scaled[OF big _ _ p[unfolded step_ns_Finite]]
    have pb: "real_of_int (1 * 2 ^ 63) \<le> p" by simp
    then have y: "real_of_int (1 * 2 ^ 63) \<le> real_of_int (tv_nsec st) + p"
      using n by simp
    then have "0 \<le> real_of_int (tv_nsec st) + p" by simp
    from round64_nonneg_cases[OF this] show ?thesis
    proof
      assume "round64 (real_of_int (tv_nsec st) + p) = PInf"
      then show ?thesis by (simp add: u p)
    next
      assume "\<exists>s. round64 (real_of_int (tv_nsec st) + p) = Finite s \<and> 0 \<le> s"
      then obtain s where s: "round64 (real_of_int (tv_nsec st) + p) = Finite s" "0 \<le> s"
        by blast
      from round64_ge_scaled[OF y _ _ s(1)] have "real_of_int (1 * 2 ^ 63) \<le> s" by simp
      then have "2 ^ 63 \<le> \<lfloor>s\<rfloor>"
        by (simp add: le_floor_iff)
      then have "\<not> in_long (truncate_real s)"
        by (simp add: truncate_real_floor[OF s(2)] in_long_def)
      then show ?thesis by (simp add: u p s(1))
    qed
  qed
qed

subsection \<open>The advance in examples\<close>

text \<open>
  Four advances as the binary64 arithmetic gives them. For the double nearest to 0.3,
  which is \<open>5404319552844595 / 2^54\<close>, the product rounds to 300000000, a whole number
  of nanoseconds. For the double \<open>13722515 / 2^33\<close> the product is short of 1597511 by
  less than a millionth: from \<open>tv_nsec = 0\<close> the sum is a double and the conversion drops
  its fraction, an advance of 1597510 ns; from \<open>tv_nsec = 536870912\<close> the sum lies
  halfway between two doubles and rounds to the whole number above, an advance of
  1597511 ns. For a time step of 9007200 seconds the product exceeds \<open>2^53\<close>: from
  \<open>tv_nsec = 1\<close> the sum rounds down to the product, and the advance is a nanosecond
  less than the product.
\<close>

lemma bitlen_eqI:
  assumes "2 ^ b \<le> n" and "n < 2 ^ Suc b"
  shows "bitlen n = int (Suc b)"
proof -
  have e: "nat (int (Suc b)) = Suc b" "nat (int (Suc b)) - 1 = b"
    by simp_all
  have "bitlen n \<le> int (Suc b)"
    unfolding bitlen_le_iff_power e using assms(2) by simp
  moreover have "int (Suc b) \<le> bitlen n"
    unfolding bitlen_ge_iff_power e using assms(1) by simp
  ultimately show ?thesis by simp
qed

lemma round_even_half: "even f \<Longrightarrow> round_even (real_of_int f + 1 / 2) = f"
  by (simp add: round_even_def Let_def)

lemma round_even_half_odd: "odd f \<Longrightarrow> round_even (real_of_int f + 1 / 2) = f + 1"
  by (simp add: round_even_def Let_def)

lemma nextStepTime_eval:
  assumes "fl (dadd (Finite (real_of_int n)) (step_ns ts)) = Finite s" and "\<bar>n\<bar> < 2 ^ 53"
    and "0 \<le> s" and "in_long \<lfloor>s\<rfloor>" and "in_long (sec + \<lfloor>s\<rfloor> div NSecPerSec)"
  shows "nextStepTime ts \<lparr>tv_sec = sec, tv_nsec = n\<rparr> =
     Some \<lparr>tv_sec = sec + \<lfloor>s\<rfloor> div NSecPerSec, tv_nsec = \<lfloor>s\<rfloor> mod NSecPerSec\<rparr>"
proof -
  have f: "0 \<le> \<lfloor>s\<rfloor>" using assms(3) by simp
  have "\<bar>tv_nsec \<lparr>tv_sec = sec, tv_nsec = n\<rparr>\<bar> < 2 ^ 53"
    using assms(2) by simp
  from nextStepTime_unfold[OF this, of ts] show ?thesis
    using assms(1,4,5) f
    by (simp add: truncate_real_floor[OF assms(3)] cdiv_nonneg crem_nonneg)
qed

lemma step_ns_three_tenths:
  "step_ns (Finite (5404319552844595 / 2 ^ 54)) = Finite 300000000"
proof -
  define x :: real where "x = 5404319552844595 / 2 ^ 54 * 1000000000"
  define Y :: real where "Y = \<bar>x\<bar> * 2 ^ 1074"
  define k where "k = nat (bitlen \<lfloor>Y\<rfloor> - 53)"
  have Y: "Y = real_of_int (5404319552844595000000000 * 2 ^ 1020)"
    by (simp add: Y_def x_def)
  then have f: "\<lfloor>Y\<rfloor> = 5404319552844595000000000 * 2 ^ 1020"
    by (simp only: floor_of_int)
  have "bitlen (5404319552844595000000000 :: int) = int (Suc 82)"
    by (rule bitlen_eqI) simp_all
  then have "bitlen \<lfloor>Y\<rfloor> = 1103"
    unfolding f using bitlen_pow2[of 5404319552844595000000000 1020] by simp
  then have k: "k = 1050" by (simp add: k_def)
  have "Y / 2 ^ 1050 = 5404319552844595000000000 / 2 ^ 30"
    by (simp add: Y_def x_def)
  then have "round_even (Y / 2 ^ k) = 5033164800000000"
    unfolding k by (simp add: round_even_def Let_def)
  then have R: "round_mag x = 5033164800000000 * 2 ^ 1050"
    unfolding round_mag_alt[OF Y_def k_def] k by simp
  have "round64 x = Finite 300000000"
    unfolding round64_def R by (simp add: x_def)
  then show ?thesis
    by (simp add: step_ns_Finite x_def)
qed

lemma next_three_tenths:
  "nextStepTime (Finite (5404319552844595 / 2 ^ 54)) \<lparr>tv_sec = 5, tv_nsec = 900000000\<rparr> =
     Some \<lparr>tv_sec = 6, tv_nsec = 200000000\<rparr>"
  using nextStepTime_eval[of 900000000 "Finite (5404319552844595 / 2 ^ 54)" 1200000000 5]
    step_ns_three_tenths round64_of_int[of 1200000000]
  by (simp add: in_long_def NSecPerSec_def)

lemma step_ns_mixed:
  "step_ns (Finite (13722515 / 2 ^ 33)) = Finite (26801787109375 / 2 ^ 24)"
  using round64_dyadic[of "26801787109375 / 2 ^ 24" 26801787109375 24]
  by (simp add: step_ns_Finite)

lemma next_mixed_down:
  "nextStepTime (Finite (13722515 / 2 ^ 33)) \<lparr>tv_sec = 5, tv_nsec = 0\<rparr> =
     Some \<lparr>tv_sec = 5, tv_nsec = 1597510\<rparr>"
  using nextStepTime_dyadic[of "13722515 / 2 ^ 33" 26801787109375 24
      "\<lparr>tv_sec = 5, tv_nsec = 0\<rparr>"]
  by (simp add: normalized_def NSecPerSec_def)

lemma round64_mixed_tie:
  "round64 (536870912 + 26801787109375 / 2 ^ 24) = Finite 538468423"
proof -
  define x :: real where "x = 536870912 + 26801787109375 / 2 ^ 24"
  define Y :: real where "Y = \<bar>x\<bar> * 2 ^ 1074"
  define k where "k = nat (bitlen \<lfloor>Y\<rfloor> - 53)"
  have Y: "Y = real_of_int (9034001041850367 * 2 ^ 1050)"
    by (simp add: Y_def x_def)
  then have f: "\<lfloor>Y\<rfloor> = 9034001041850367 * 2 ^ 1050"
    by (simp only: floor_of_int)
  have "bitlen (9034001041850367 :: int) = int (Suc 53)"
    by (rule bitlen_eqI) simp_all
  then have "bitlen \<lfloor>Y\<rfloor> = 1104"
    unfolding f using bitlen_pow2[of 9034001041850367 1050] by simp
  then have k: "k = 1051" by (simp add: k_def)
  have "Y / 2 ^ 1051 = real_of_int 4517000520925183 + 1 / 2"
    by (simp add: Y_def x_def)
  then have "round_even (Y / 2 ^ k) = 4517000520925184"
    unfolding k using round_even_half_odd[of 4517000520925183] by simp
  then have R: "round_mag x = 4517000520925184 * 2 ^ 1051"
    unfolding round_mag_alt[OF Y_def k_def] k by simp
  have "round64 x = Finite 538468423"
    unfolding round64_def R by (simp add: x_def)
  then show ?thesis
    by (simp add: x_def)
qed

lemma next_mixed_up:
  "nextStepTime (Finite (13722515 / 2 ^ 33)) \<lparr>tv_sec = 5, tv_nsec = 536870912\<rparr> =
     Some \<lparr>tv_sec = 5, tv_nsec = 538468423\<rparr>"
  using nextStepTime_eval[of 536870912 "Finite (13722515 / 2 ^ 33)" 538468423 5]
    step_ns_mixed round64_mixed_tie
  by (simp add: in_long_def NSecPerSec_def)

lemma round64_tie: "round64 9007200000000001 = Finite 9007200000000000"
proof -
  define Y :: real where "Y = \<bar>9007200000000001\<bar> * 2 ^ 1074"
  define k where "k = nat (bitlen \<lfloor>Y\<rfloor> - 53)"
  have Y: "Y = real_of_int (9007200000000001 * 2 ^ 1074)"
    by (simp add: Y_def)
  then have "\<lfloor>Y\<rfloor> = 9007200000000001 * 2 ^ 1074"
    by (simp only: floor_of_int)
  moreover have "bitlen (9007200000000001 :: int) = int (Suc 53)"
    by (rule bitlen_eqI) simp_all
  ultimately have "bitlen \<lfloor>Y\<rfloor> = 1128"
    using bitlen_pow2[of 9007200000000001 1074] by simp
  then have k: "k = 1075" by (simp add: k_def)
  have "Y / 2 ^ 1075 = real_of_int 4503600000000000 + 1 / 2"
    by (simp add: Y_def)
  then have "round_even (Y / 2 ^ k) = 4503600000000000"
    unfolding k using round_even_half[of 4503600000000000] by simp
  then have R: "round_mag 9007200000000001 = 4503600000000000 * 2 ^ 1075"
    unfolding round_mag_alt[OF Y_def k_def] k by simp
  show ?thesis
    unfolding round64_def R by simp
qed

lemma next_long_tie:
  "nextStepTime (Finite 9007200) \<lparr>tv_sec = 5, tv_nsec = 1\<rparr> = Some \<lparr>tv_sec = 9007205, tv_nsec = 0\<rparr>"
proof -
  have p: "step_ns (Finite 9007200) = Finite 9007200000000000"
    using round64_scaled[of 4503600000000000 1] by (simp add: step_ns_Finite)
  show ?thesis
    by (simp add: nextStepTime_unfold p round64_tie truncate_real_def in_long_def cdiv_def
        crem_def NSecPerSec_def)
qed

subsection \<open>One call of sleep\<close>

lemma sleep_stepTime_forward:
  assumes "sleep now1 now2 r = Some (r', diags, out)" and "TimeStepIsValid (timeStep r)"
    and "normalized (stepTime r)"
  shows "to_ns (stepTime r) \<le> to_ns (stepTime r')"
proof -
  from assms(1) obtain awake "next" d where
    n: "nextStepTime (timeStep r) (stepTime r) = Some next" and
    d: "GetDuration now2 next = Some d" and
    r': "r' = fst (policy now2 next d (fst (measured now1 awake r)))"
    by (rule sleep_SomeD)
  have "to_ns (stepTime r) \<le> to_ns next"
    using n assms(2,3) by (rule nextStepTime_forward)
  then show ?thesis
    by (auto simp: r' policy_schedule behind_iff[OF d])
qed

lemma sleep_stepTime_normalized:
  assumes "sleep now1 now2 r = Some (r', diags, out)" and "TimeStepIsValid (timeStep r)"
    and "normalized (stepTime r)" and "normalized now2"
  shows "normalized (stepTime r')"
proof -
  from assms(1) obtain awake "next" d where
    n: "nextStepTime (timeStep r) (stepTime r) = Some next" and
    r': "r' = fst (policy now2 next d (fst (measured now1 awake r)))"
    by (rule sleep_SomeD)
  from n assms(2,3) have "normalized next"
    by (rule nextStepTime_normalized)
  then show ?thesis
    using assms(4) by (simp add: r' policy_schedule)
qed

subsection \<open>The statistics update\<close>

text \<open>
  The facts of this subsection are about the update in exact arithmetic: for fewer than
  \<open>2^32\<close> samples it yields the arithmetic mean and the sum of the squared deviations of
  the samples, and at the \<open>2^32\<close>th sample the count wraps to zero and the mean becomes
  NaN. The rounding error of the update in binary64 is the subject of the next subsection.
\<close>

lemma feed_snoc: "feed (xs @ [x]) r = updateStatistics ((feed xs r)\<lparr>awakeTime := x\<rparr>)"
  by (simp add: feed_def)

lemma feed_Nil: "feed [] r = r"
  by (simp add: feed_def)

lemma double_of_uint_of_nat:
  "n < 2 ^ 32 \<Longrightarrow> double_of_uint (of_nat n) = Finite (real n)"
  by (simp add: double_of_uint_def unat_of_nat take_bit_nat_eq_self)

lemma updateStatistics_finite:
  assumes "awakeTime r = Finite a" "awakeTimeMean r = Finite m" "awakeTimeM2 r = Finite q"
    and "numTimeSteps r = of_nat n" and "Suc n < 2 ^ 32"
  shows "awakeTimeMean (updateStatistics r) = Finite (m + (a - m) / real (Suc n))"
    and "awakeTimeM2 (updateStatistics r) =
           Finite (q + (a - m) * (a - (m + (a - m) / real (Suc n))))"
    and "numTimeSteps (updateStatistics r) = of_nat (Suc n)"
proof -
  have "double_of_uint (numTimeSteps r + 1) = Finite (real (Suc n))"
    using double_of_uint_of_nat[OF assms(5)] by (simp add: assms(4) add.commute)
  then show "awakeTimeMean (updateStatistics r) = Finite (m + (a - m) / real (Suc n))"
    and "awakeTimeM2 (updateStatistics r) =
           Finite (q + (a - m) * (a - (m + (a - m) / real (Suc n))))"
    using assms(1-3) by (simp_all add: updateStatistics_def Let_def dsub_def)
  show "numTimeSteps (updateStatistics r) = of_nat (Suc n)"
    by (simp add: updateStatistics_def Let_def assms(4))
qed

lemma welford_step_mean:
  fixes m x N :: real
  assumes "0 \<le> N"
  shows "m + (x - m) / (N + 1) = (N * m + x) / (N + 1)"
proof -
  have "N + 1 \<noteq> 0" using assms by simp
  then show ?thesis by (simp add: field_simps)
qed

lemma welford_step_M2_aux:
  fixes m x q k :: real
  assumes "k \<noteq> 0"
  shows "(q - (k - 1) * m\<^sup>2) + (x - m) * (x - ((k - 1) * m + x) / k)
       = (q + x\<^sup>2) - k * (((k - 1) * m + x) / k)\<^sup>2"
  using assms by (simp add: field_simps power2_eq_square)

lemma welford_step_M2:
  fixes m x q N :: real
  assumes "0 \<le> N"
  shows "(q - N * m\<^sup>2) + (x - m) * (x - (N * m + x) / (N + 1))
       = (q + x\<^sup>2) - (N + 1) * ((N * m + x) / (N + 1))\<^sup>2"
proof -
  have "N + 1 \<noteq> 0" using assms by simp
  from welford_step_M2_aux[OF this, of q m x] show ?thesis by simp
qed

lemma mean_times_length: "real (length xs) * arithmetic_mean xs = sum_list xs"
  by (cases "xs = []") (simp_all add: arithmetic_mean_def)

lemma mean_snoc:
  "arithmetic_mean (xs @ [x]) = (real (length xs) * arithmetic_mean xs + x) / (real (length xs) + 1)"
  by (simp add: mean_times_length) (simp add: arithmetic_mean_def add.commute)

lemma feed_statistics:
  assumes "numTimeSteps r = 0" "awakeTimeMean r = Finite 0" "awakeTimeM2 r = Finite 0"
    and "length xs < 2 ^ 32"
  shows "numTimeSteps (feed (map Finite xs) r) = of_nat (length xs) \<and>
     awakeTimeMean (feed (map Finite xs) r) = Finite (arithmetic_mean xs) \<and>
     awakeTimeM2 (feed (map Finite xs) r) =
       Finite ((\<Sum>x\<leftarrow>xs. x\<^sup>2) - real (length xs) * (arithmetic_mean xs)\<^sup>2)"
  using assms(4)
proof (induction xs rule: rev_induct)
  case Nil
  then show ?case
    by (simp add: feed_Nil assms arithmetic_mean_def)
next
  case (snoc x xs)
  let ?r = "(feed (map Finite xs) r)\<lparr>awakeTime := Finite x\<rparr>"
  from snoc have n: "Suc (length xs) < 2 ^ 32" and
    ih: "numTimeSteps ?r = of_nat (length xs)"
      "awakeTimeMean ?r = Finite (arithmetic_mean xs)"
      "awakeTimeM2 ?r = Finite ((\<Sum>x\<leftarrow>xs. x\<^sup>2) - real (length xs) * (arithmetic_mean xs)\<^sup>2)"
    by simp_all
  have a: "awakeTime ?r = Finite x" by simp
  note u = updateStatistics_finite[OF a ih(2) ih(3) ih(1) n]
  have N: "0 \<le> real (length xs)" by simp
  have m: "arithmetic_mean xs + (x - arithmetic_mean xs) / real (Suc (length xs))
      = arithmetic_mean (xs @ [x])"
    using welford_step_mean[OF N, of "arithmetic_mean xs" x]
    by (simp add: mean_snoc add.commute)
  have q: "(\<Sum>x\<leftarrow>xs. x\<^sup>2) - real (length xs) * (arithmetic_mean xs)\<^sup>2 +
      (x - arithmetic_mean xs) *
      (x - (arithmetic_mean xs + (x - arithmetic_mean xs) / real (Suc (length xs))))
      = (\<Sum>x\<leftarrow>xs @ [x]. x\<^sup>2) - real (length (xs @ [x])) * (arithmetic_mean (xs @ [x]))\<^sup>2"
    unfolding m
    using welford_step_M2[OF N, of "\<Sum>x\<leftarrow>xs. x\<^sup>2" "arithmetic_mean xs" x]
    by (simp add: mean_snoc add.commute)
  show ?case
    unfolding map_append list.map feed_snoc
    using u m q by simp
qed

lemma sum_squared_deviations:
  fixes m :: real
  shows "(\<Sum>x\<leftarrow>xs. (x - m)\<^sup>2) = (\<Sum>x\<leftarrow>xs. x\<^sup>2) - 2 * m * sum_list xs + real (length xs) * m\<^sup>2"
  by (induction xs) (simp_all add: power2_diff algebra_simps)

lemma sum_squared_deviations_mean:
  "(\<Sum>x\<leftarrow>xs. (x - arithmetic_mean xs)\<^sup>2)
     = (\<Sum>x\<leftarrow>xs. x\<^sup>2) - real (length xs) * (arithmetic_mean xs)\<^sup>2"
proof -
  have "2 * arithmetic_mean xs * sum_list xs = 2 * real (length xs) * (arithmetic_mean xs)\<^sup>2"
    by (simp add: mean_times_length[symmetric] power2_eq_square)
  then show ?thesis
    by (simp add: sum_squared_deviations)
qed

lemma getAwakeTimeVar_of_nat:
  assumes "numTimeSteps r = of_nat n" "2 \<le> n" "n < 2 ^ 32" "awakeTimeM2 r = Finite q"
  shows "getAwakeTimeVar r = Finite (q / (real n - 1))"
proof -
  have n1: "numTimeSteps r - 1 = of_nat (n - 1)"
    using assms(2) by (simp add: assms(1))
  have "unat (numTimeSteps r) = n"
    using assms(3) by (simp add: assms(1) unat_of_nat take_bit_nat_eq_self)
  then have "\<not> numTimeSteps r \<le> 1"
    using assms(2) by (simp add: word_le_nat_alt)
  moreover have "double_of_uint (numTimeSteps r - 1) = Finite (real n - 1)"
    unfolding n1 using double_of_uint_of_nat[of "n - 1"] assms(2,3)
    by (simp add: of_nat_diff)
  ultimately show ?thesis
    using assms(2,4) by (simp add: getAwakeTimeVar_def)
qed

lemma reset_statistics:
  "numTimeSteps (reset now r) = 0" "awakeTimeMean (reset now r) = Finite 0"
  "awakeTimeM2 (reset now r) = Finite 0" "awakeTime (reset now r) = Finite 0"
  by (simp_all add: reset_def)

lemma mean_replicate: "0 < n \<Longrightarrow> arithmetic_mean (replicate n c) = c"
  by (simp add: arithmetic_mean_def sum_list_replicate)

lemma updateStatistics_wrap:
  assumes "numTimeSteps r + 1 = 0" "awakeTime r = Finite a" "awakeTimeMean r = Finite a"
  shows "awakeTimeMean (updateStatistics r) = NaN"
  using assms by (simp add: updateStatistics_def Let_def dsub_def double_of_uint_def)

lemma feed_wraps:
  "awakeTimeMean (feed (map Finite (replicate (2 ^ 32) c)) (reset now r)) = NaN"
proof -
  let ?xs = "replicate (2 ^ 32 - 1) c"
  let ?r = "feed (map Finite ?xs) (reset now r)"
  have l: "length ?xs < 2 ^ 32" by simp
  from feed_statistics[OF reset_statistics(1-3) l] have
    n: "numTimeSteps ?r = of_nat (2 ^ 32 - 1)" and
    m: "awakeTimeMean ?r = Finite c"
    by (simp_all add: mean_replicate)
  have split: "replicate (2 ^ 32) c = ?xs @ [c]"
    by (metis Suc_pred' replicate_Suc replicate_append_same zero_less_numeral zero_less_power)
  have z: "numTimeSteps ?r + 1 = 0"
    unfolding n by simp
  let ?r1 = "?r\<lparr>awakeTime := Finite c\<rparr>"
  have "numTimeSteps ?r1 + 1 = 0" using z by simp
  moreover have "awakeTime ?r1 = Finite c" by simp
  moreover have "awakeTimeMean ?r1 = Finite c" using m by simp
  ultimately have "awakeTimeMean (updateStatistics ?r1) = NaN"
    by (rule updateStatistics_wrap)
  then show ?thesis
    unfolding split map_append list.map feed_snoc .
qed

lemma of_nat_32_eq_0: "n < 2 ^ 32 \<Longrightarrow> (of_nat n :: 32 word) = 0 \<longleftrightarrow> n = 0"
proof -
  assume "n < 2 ^ 32"
  then have "unat (of_nat n :: 32 word) = n"
    by (simp add: unat_of_nat take_bit_nat_eq_self)
  then show ?thesis
    by (metis unat_eq_zero of_nat_0)
qed

subsection \<open>The statistics update in binary64\<close>

text \<open>
  The update with every operation rounded. A rounded result differs from the exact one
  by at most the fraction \<open>2^-53\<close> of its magnitude plus \<open>2^-1075\<close>, and is finite
  while the magnitude stays below \<open>2^1000\<close>. So for samples of magnitude at most \<open>B\<close>
  the distance of the running mean from the arithmetic mean grows by at most
  \<open>20 * B / 2^53\<close> with every sample, and the distance of \<open>awakeTimeM2\<close> from the sum of
  the squared deviations stays below \<open>184 * n^2 * B^2 / 2^53\<close> after \<open>n\<close> samples.
\<close>

lemma rounding_bound:
  fixes s z u \<eta> c C :: real
  assumes "0 \<le> u" "u \<le> 1 / 32" "\<eta> \<le> u * C" "0 \<le> C" "\<bar>z\<bar> \<le> c * C" "c \<le> 31"
    and "\<bar>s - z\<bar> \<le> u * \<bar>z\<bar> + \<eta>"
  shows "\<bar>s\<bar> \<le> (c + 1) * C"
proof -
  have cC: "0 \<le> c * C" using assms(5) by linarith
  have "u * \<bar>z\<bar> \<le> u * (c * C)" using assms(5,1) by (rule mult_left_mono)
  then have e: "\<bar>s - z\<bar> \<le> u * (c * C) + u * C" using assms(3,7) by linarith
  have "u * (c * C) \<le> 1 / 32 * (c * C)" using assms(2) cC by (rule mult_right_mono)
  moreover have "u * C \<le> 1 / 32 * C" using assms(2,4) by (rule mult_right_mono)
  moreover have "c * C \<le> 31 * C" using assms(6,4) by (rule mult_right_mono)
  ultimately have "\<bar>s - z\<bar> \<le> C" using e by linarith
  then have "\<bar>s\<bar> \<le> c * C + C" using assms(5) by linarith
  then show ?thesis by (simp add: algebra_simps)
qed

lemma small_magnitude:
  fixes z c C :: real
  assumes "\<bar>z\<bar> \<le> c * C" "c \<le> 2 ^ 40" "0 \<le> C" "C \<le> 2 ^ 800"
  shows "\<bar>z\<bar> \<le> 2 ^ 1000"
proof -
  have "c * C \<le> 2 ^ 40 * 2 ^ 800"
    using assms(2-4) by (intro mult_mono) simp_all
  also have "\<dots> = (2::real) ^ 840" by (simp only: power_add[symmetric]) simp
  also have "\<dots> \<le> 2 ^ 1000" by (simp only: power_increasing_iff)
  finally show ?thesis using assms(1) by linarith
qed

lemma round64_finite:
  assumes "\<bar>y\<bar> \<le> 2 ^ 1000"
  shows "\<exists>s. round64 y = Finite s \<and> \<bar>s - y\<bar> \<le> 1 / 2 ^ 53 * \<bar>y\<bar> + 1 / 2 ^ 1075"
proof -
  define S :: real where "S = 2 ^ 1074"
  define T :: int where "T = 2 ^ 2098"
  note u = round64_unfold[OF S_def T_def]
  have "(2::real) ^ 1000 * 2 ^ 1074 = real_of_int (1 * 2 ^ 2074)"
    by (simp only: power_add[symmetric] of_int_mult of_int_power of_int_numeral of_int_1 mult_1) simp
  from round_mag_upper[OF this _ _ assms] have "round_mag y \<le> 1 * 2 ^ 2074" by simp
  also have "\<dots> < (2::int) ^ 2098" by (simp only: mult_1 power_strict_increasing_iff)
  finally have "\<not> T \<le> round_mag y" unfolding T_def by linarith
  then obtain s where s: "round64 y = Finite s" unfolding u by simp
  from round64_error[OF s] have "\<bar>s - y\<bar> \<le> 1 / 2 ^ 53 * \<bar>y\<bar> + 1 / 2 ^ 1075" by simp
  with s show ?thesis by blast
qed

lemma fl_Finite:
  assumes "\<bar>z\<bar> \<le> 2 ^ 1000"
  obtains s where "fl (Finite z) = Finite s" "\<bar>s - z\<bar> \<le> 1 / 2 ^ 53 * \<bar>z\<bar> + 1 / 2 ^ 1075"
  using round64_finite[OF assms] by auto

lemma welford_mean_step:
  fixes a m \<mu> E B u \<eta> k \<delta> w m' :: real
  assumes u: "0 \<le> u" "u \<le> 1 / 16" and eta: "0 \<le> \<eta>" "\<eta> \<le> u * B"
    and a: "\<bar>a\<bar> \<le> B" and mu: "\<bar>\<mu>\<bar> \<le> B" and e: "\<bar>m - \<mu>\<bar> \<le> E" and E: "E \<le> B"
    and k: "1 \<le> k"
    and d: "\<bar>\<delta> - (a - m)\<bar> \<le> u * \<bar>a - m\<bar> + \<eta>"
    and w: "\<bar>w - \<delta> / k\<bar> \<le> u * \<bar>\<delta> / k\<bar> + \<eta>"
    and m': "\<bar>m' - (m + w)\<bar> \<le> u * \<bar>m + w\<bar> + \<eta>"
  shows "\<bar>a - m\<bar> \<le> 3 * B" and "\<bar>\<delta> - (a - m)\<bar> \<le> 4 * (u * B)" and "\<bar>\<delta>\<bar> \<le> 4 * B"
    and "\<bar>\<delta> / k\<bar> \<le> 4 * B" and "\<bar>w\<bar> \<le> 6 * B" and "\<bar>m + w\<bar> \<le> 8 * B"
    and "\<bar>m' - (\<mu> + (a - \<mu>) / k)\<bar> \<le> E + 20 * (u * B)"
proof -
  have B: "0 \<le> B" using a by linarith
  have uB0: "0 \<le> u * B" using u B by simp
  have "u * B \<le> 1 / 16 * B" using u(2) B by (rule mult_right_mono)
  then have uB: "0 \<le> u * B" "u * B \<le> B / 16" using uB0 by simp_all
  show d3: "\<bar>a - m\<bar> \<le> 3 * B" using a mu e E by linarith
  have "u * \<bar>a - m\<bar> \<le> u * (3 * B)" using d3 u(1) by (rule mult_left_mono)
  then show e1: "\<bar>\<delta> - (a - m)\<bar> \<le> 4 * (u * B)" using d eta by linarith
  show d4: "\<bar>\<delta>\<bar> \<le> 4 * B" using e1 d3 uB by linarith
  have "\<bar>\<delta> / k\<bar> = \<bar>\<delta>\<bar> / k" using k by simp
  also have "\<dots> \<le> \<bar>\<delta>\<bar> / 1" using k by (intro divide_left_mono) simp_all
  finally have dk: "\<bar>\<delta> / k\<bar> \<le> \<bar>\<delta>\<bar>" by simp
  then show dk4: "\<bar>\<delta> / k\<bar> \<le> 4 * B" using d4 by linarith
  have "u * \<bar>\<delta> / k\<bar> \<le> u * (4 * B)" using dk4 u(1) by (rule mult_left_mono)
  then have e2: "\<bar>w - \<delta> / k\<bar> \<le> 5 * (u * B)" using w eta by linarith
  show w6: "\<bar>w\<bar> \<le> 6 * B" using e2 dk4 uB by linarith
  have m2: "\<bar>m\<bar> \<le> 2 * B" using mu e E by linarith
  show s8: "\<bar>m + w\<bar> \<le> 8 * B" using m2 w6 by linarith
  have "u * \<bar>m + w\<bar> \<le> u * (8 * B)" using s8 u(1) by (rule mult_left_mono)
  then have e3: "\<bar>m' - (m + w)\<bar> \<le> 9 * (u * B)" using m' eta by linarith
  have "\<bar>(\<delta> - (a - m)) / k\<bar> = \<bar>\<delta> - (a - m)\<bar> / k" using k by simp
  also have "\<dots> \<le> \<bar>\<delta> - (a - m)\<bar> / 1" using k by (intro divide_left_mono) simp_all
  finally have e1k: "\<bar>(\<delta> - (a - m)) / k\<bar> \<le> 4 * (u * B)" using e1 by simp
  have k0: "k \<noteq> 0" using k by simp
  have id: "m + (a - m) / k - (\<mu> + (a - \<mu>) / k) = (m - \<mu>) * (1 - 1 / k)"
    using k0 by (simp add: field_simps)
  have "0 \<le> 1 - 1 / k" "1 - 1 / k \<le> 1" using k by simp_all
  then have "\<bar>(m - \<mu>) * (1 - 1 / k)\<bar> \<le> \<bar>m - \<mu>\<bar> * 1"
    unfolding abs_mult by (intro mult_left_mono) simp_all
  then have e0: "\<bar>m + (a - m) / k - (\<mu> + (a - \<mu>) / k)\<bar> \<le> E"
    unfolding id using e by simp
  have split: "m' - (\<mu> + (a - \<mu>) / k)
     = (m' - (m + w)) + (w - \<delta> / k) + (\<delta> - (a - m)) / k + (m + (a - m) / k - (\<mu> + (a - \<mu>) / k))"
    using k0 by (simp add: field_simps)
  show "\<bar>m' - (\<mu> + (a - \<mu>) / k)\<bar> \<le> E + 20 * (u * B)"
    unfolding split using e3 e2 e1k e0 uB by linarith
qed

lemma welford_M2_step:
  fixes a m \<mu> \<mu>' E E' F Q M B u \<eta> k \<delta> \<delta>2 \<pi> m' M' :: real
  assumes u: "0 \<le> u" "u \<le> 1 / 32" and eta: "0 \<le> \<eta>" "\<eta> \<le> u * B" "\<eta> \<le> u * B\<^sup>2"
    and a: "\<bar>a\<bar> \<le> B" and mu: "\<bar>\<mu>\<bar> \<le> B" and mu': "\<bar>\<mu>'\<bar> \<le> B"
    and e: "\<bar>m - \<mu>\<bar> \<le> E" and e': "\<bar>m' - \<mu>'\<bar> \<le> E'" and E: "E \<le> B" "E' \<le> B"
    and k: "1 \<le> k"
    and d: "\<bar>\<delta> - (a - m)\<bar> \<le> u * \<bar>a - m\<bar> + \<eta>"
    and d2: "\<bar>\<delta>2 - (a - m')\<bar> \<le> u * \<bar>a - m'\<bar> + \<eta>"
    and p: "\<bar>\<pi> - \<delta> * \<delta>2\<bar> \<le> u * \<bar>\<delta> * \<delta>2\<bar> + \<eta>"
    and M': "\<bar>M' - (M + \<pi>)\<bar> \<le> u * \<bar>M + \<pi>\<bar> + \<eta>"
    and F: "\<bar>M - Q\<bar> \<le> F" and Q: "0 \<le> Q" "Q \<le> 4 * k * B\<^sup>2" and uF: "F \<le> k * B\<^sup>2"
  shows "\<bar>a - m'\<bar> \<le> 3 * B" and "\<bar>\<delta>2\<bar> \<le> 4 * B" and "\<bar>\<delta> * \<delta>2\<bar> \<le> 16 * B\<^sup>2"
    and "\<bar>\<pi>\<bar> \<le> 17 * B\<^sup>2" and "\<bar>M + \<pi>\<bar> \<le> 5 * k * B\<^sup>2 + 17 * B\<^sup>2"
    and "\<bar>M' - (Q + (a - \<mu>) * (a - \<mu>'))\<bar>
           \<le> F + 59 * (u * B\<^sup>2) + 5 * k * (u * B\<^sup>2) + 4 * (B * E) + 2 * (B * E')"
proof -
  define X where "X = u * B\<^sup>2"
  define S where "S = B\<^sup>2"
  have B: "0 \<le> B" using a by linarith
  have S0: "0 \<le> S" by (simp add: S_def)
  have uB0: "0 \<le> u * B" using u B by simp
  have "u * B \<le> 1 / 32 * B" using u(2) B by (rule mult_right_mono)
  then have uB: "u * B \<le> B / 32" by simp
  have X0: "0 \<le> X" using u by (simp add: X_def)
  have "u * S \<le> 1 / 32 * S" using u(2) S0 by (rule mult_right_mono)
  then have XS: "X \<le> S / 32" by (simp add: X_def S_def)
  have uBB: "u * B * B = X" by (simp add: X_def power2_eq_square)
  have BB: "B * B = S" by (simp add: S_def power2_eq_square)
  have etaX: "\<eta> \<le> X" using eta(3) by (simp add: X_def)
  have d3: "\<bar>a - m\<bar> \<le> 3 * B" using a mu e E by linarith
  have "u * \<bar>a - m\<bar> \<le> u * (3 * B)" using d3 u(1) by (rule mult_left_mono)
  then have e1: "\<bar>\<delta> - (a - m)\<bar> \<le> 4 * (u * B)" using d eta by linarith
  have d4: "\<bar>\<delta>\<bar> \<le> 4 * B" using e1 d3 uB uB0 by linarith
  show d3': "\<bar>a - m'\<bar> \<le> 3 * B" using a mu' e' E by linarith
  have "u * \<bar>a - m'\<bar> \<le> u * (3 * B)" using d3' u(1) by (rule mult_left_mono)
  then have e2: "\<bar>\<delta>2 - (a - m')\<bar> \<le> 4 * (u * B)" using d2 eta by linarith
  show d4': "\<bar>\<delta>2\<bar> \<le> 4 * B" using e2 d3' uB uB0 by linarith
  define \<alpha> where "\<alpha> = \<delta> - (a - \<mu>)"
  define \<beta> where "\<beta> = \<delta>2 - (a - \<mu>')"
  have al: "\<bar>\<alpha>\<bar> \<le> 4 * (u * B) + E" unfolding \<alpha>_def using e1 e by linarith
  have be: "\<bar>\<beta>\<bar> \<le> 4 * (u * B) + E'" unfolding \<beta>_def using e2 e' by linarith
  have D: "\<bar>a - \<mu>\<bar> \<le> 2 * B" using a mu by linarith
  have id: "\<delta> * \<delta>2 - (a - \<mu>) * (a - \<mu>') = (a - \<mu>) * \<beta> + \<alpha> * \<delta>2"
    by (simp add: \<alpha>_def \<beta>_def algebra_simps)
  have "\<bar>(a - \<mu>) * \<beta>\<bar> \<le> (2 * B) * (4 * (u * B) + E')"
    unfolding abs_mult using D be by (intro mult_mono) simp_all
  also have "\<dots> = 8 * (u * B * B) + 2 * (B * E')" by (simp add: algebra_simps)
  finally have t1: "\<bar>(a - \<mu>) * \<beta>\<bar> \<le> 8 * X + 2 * (B * E')" unfolding uBB .
  have al0: "0 \<le> 4 * (u * B) + E" using al by linarith
  have "\<bar>\<alpha> * \<delta>2\<bar> \<le> (4 * (u * B) + E) * (4 * B)"
    unfolding abs_mult using al d4' al0 by (intro mult_mono) simp_all
  also have "\<dots> = 16 * (u * B * B) + 4 * (B * E)" by (simp add: algebra_simps)
  finally have t2: "\<bar>\<alpha> * \<delta>2\<bar> \<le> 16 * X + 4 * (B * E)" unfolding uBB .
  have ed: "\<bar>\<delta> * \<delta>2 - (a - \<mu>) * (a - \<mu>')\<bar> \<le> 24 * X + 4 * (B * E) + 2 * (B * E')"
    unfolding id using t1 t2 by linarith
  have "\<bar>\<delta> * \<delta>2\<bar> \<le> (4 * B) * (4 * B)"
    unfolding abs_mult using d4 d4' B by (intro mult_mono) simp_all
  also have "\<dots> = 16 * (B * B)" by simp
  finally have dd: "\<bar>\<delta> * \<delta>2\<bar> \<le> 16 * S" unfolding BB .
  then show "\<bar>\<delta> * \<delta>2\<bar> \<le> 16 * B\<^sup>2" by (simp add: S_def)
  have "u * \<bar>\<delta> * \<delta>2\<bar> \<le> u * (16 * S)" using dd u(1) by (rule mult_left_mono)
  also have "\<dots> = 16 * X" by (simp add: X_def S_def)
  finally have ep: "\<bar>\<pi> - \<delta> * \<delta>2\<bar> \<le> 17 * X" using p etaX by linarith
  have pi: "\<bar>\<pi>\<bar> \<le> 17 * S" using ep dd XS X0 by linarith
  then show "\<bar>\<pi>\<bar> \<le> 17 * B\<^sup>2" by (simp add: S_def)
  have Qk: "Q \<le> 4 * (k * S)" using Q(2) by (simp add: S_def)
  have Fk: "F \<le> k * S" using uF by (simp add: S_def)
  have Mp: "\<bar>M + \<pi>\<bar> \<le> 5 * (k * S) + 17 * S" using F Q(1) Qk Fk pi by linarith
  then show "\<bar>M + \<pi>\<bar> \<le> 5 * k * B\<^sup>2 + 17 * B\<^sup>2" by (simp add: S_def)
  have "u * \<bar>M + \<pi>\<bar> \<le> u * (5 * (k * S) + 17 * S)" using Mp u(1) by (rule mult_left_mono)
  also have "\<dots> = 5 * (k * X) + 17 * X" by (simp add: X_def S_def algebra_simps)
  finally have eM: "\<bar>M' - (M + \<pi>)\<bar> \<le> 5 * (k * X) + 18 * X" using M' etaX by linarith
  have split: "M' - (Q + (a - \<mu>) * (a - \<mu>'))
     = (M' - (M + \<pi>)) + (\<pi> - \<delta> * \<delta>2) + (\<delta> * \<delta>2 - (a - \<mu>) * (a - \<mu>')) + (M - Q)"
    by simp
  have "\<bar>M' - (Q + (a - \<mu>) * (a - \<mu>'))\<bar> \<le> F + 59 * X + 5 * (k * X) + 4 * (B * E) + 2 * (B * E')"
    unfolding split using eM ep ed F by linarith
  then show "\<bar>M' - (Q + (a - \<mu>) * (a - \<mu>'))\<bar>
           \<le> F + 59 * (u * B\<^sup>2) + 5 * k * (u * B\<^sup>2) + 4 * (B * E) + 2 * (B * E')"
    by (simp add: X_def)
qed

lemma rounding_constants:
  fixes B :: real
  assumes "1 / 2 ^ 500 \<le> B"
  shows "1 / 2 ^ 1075 \<le> 1 / 2 ^ 53 * B" and "1 / 2 ^ 1075 \<le> 1 / 2 ^ 53 * B\<^sup>2"
proof -
  have B0: "0 \<le> B" using assms by (rule order_trans[rotated]) simp
  have e1: "(1::real) / 2 ^ 1075 \<le> 1 / 2 ^ 53 * (1 / 2 ^ 500)"
    by (simp only: times_divide_times_eq mult_1 power_add[symmetric]) (simp add: field_simps)
  have "1 / 2 ^ 53 * (1 / 2 ^ 500) \<le> 1 / 2 ^ 53 * B"
    using assms by (intro mult_left_mono) simp_all
  with e1 show "1 / 2 ^ 1075 \<le> 1 / 2 ^ 53 * B" by (rule order_trans)
  have "(1 / 2 ^ 500)\<^sup>2 \<le> B\<^sup>2"
    using assms by (intro power_mono) simp_all
  then have "1 / 2 ^ 53 * (1 / 2 ^ 500)\<^sup>2 \<le> 1 / 2 ^ 53 * B\<^sup>2"
    by (intro mult_left_mono) simp_all
  moreover have "(1::real) / 2 ^ 1075 \<le> 1 / 2 ^ 53 * (1 / 2 ^ 500)\<^sup>2"
    by (simp only: power_divide power_one power_mult[symmetric] times_divide_times_eq mult_1
        power_add[symmetric]) (simp add: field_simps)
  ultimately show "1 / 2 ^ 1075 \<le> 1 / 2 ^ 53 * B\<^sup>2" by (rule order_trans[rotated])
qed

lemma updateStatistics64_step:
  fixes a m M \<mu> Q B :: real
  assumes r: "awakeTime r = Finite a" "awakeTimeMean r = Finite m" "awakeTimeM2 r = Finite M"
      "numTimeSteps r = of_nat n" and n: "Suc n < 2 ^ 32"
    and B: "1 / 2 ^ 500 \<le> B" "B \<le> 2 ^ 400"
    and a: "\<bar>a\<bar> \<le> B" and mu: "\<bar>\<mu>\<bar> \<le> B" and mu': "\<bar>\<mu> + (a - \<mu>) / real (Suc n)\<bar> \<le> B"
    and e: "\<bar>m - \<mu>\<bar> \<le> 20 * real n * (B / 2 ^ 53)"
    and F: "\<bar>M - Q\<bar> \<le> 184 * (real n)\<^sup>2 * (B\<^sup>2 / 2 ^ 53)"
    and Q: "0 \<le> Q" "Q \<le> 4 * real n * B\<^sup>2"
  shows "\<exists>m' M'. awakeTimeMean (updateStatistics64 r) = Finite m' \<and>
           awakeTimeM2 (updateStatistics64 r) = Finite M' \<and>
           \<bar>m' - (\<mu> + (a - \<mu>) / real (Suc n))\<bar> \<le> 20 * real (Suc n) * (B / 2 ^ 53) \<and>
           \<bar>M' - (Q + (a - \<mu>) * (a - (\<mu> + (a - \<mu>) / real (Suc n))))\<bar>
              \<le> 184 * (real (Suc n))\<^sup>2 * (B\<^sup>2 / 2 ^ 53)"
    and "numTimeSteps (updateStatistics64 r) = of_nat (Suc n)"
proof -
  define u :: real where "u = 1 / 2 ^ 53"
  define \<eta> :: real where "\<eta> = 1 / 2 ^ 1075"
  define k where "k = real (Suc n)"
  define N where "N = real n"
  define \<mu>' where "\<mu>' = \<mu> + (a - \<mu>) / k"
  define S where "S = B\<^sup>2"
  define X where "X = u * S"
  define E where "E = 20 * (N * (u * B))"
  define E' where "E' = E + 20 * (u * B)"
  define G where "G = 184 * (N * (N * X))"
  have u: "0 \<le> u" "u \<le> 1 / 32" "u \<le> 1 / 16" by (simp_all add: u_def)
  have eta0: "0 \<le> \<eta>" by (simp add: \<eta>_def)
  have eta: "\<eta> \<le> u * B" "\<eta> \<le> u * B\<^sup>2"
    unfolding \<eta>_def u_def using rounding_constants[OF B(1)] by simp_all
  have B0: "0 \<le> B" using a by linarith
  have S0: "0 \<le> S" by (simp add: S_def)
  have X0: "0 \<le> X" using u S0 by (simp add: X_def)
  have uB0: "0 \<le> u * B" using u B0 by simp
  have N0: "0 \<le> N" by (simp add: N_def)
  have kN: "k = N + 1" by (simp add: k_def N_def)
  have k1: "1 \<le> k" using N0 kN by simp
  have k0: "k \<noteq> 0" using k1 by simp
  have "real (Suc n) < 2 ^ 32" using n by (metis of_nat_less_iff of_nat_numeral of_nat_power)
  then have N32: "N < 2 ^ 32" by (simp add: N_def)
  have "N * u \<le> 2 ^ 32 * u" using N32 u(1) by (intro mult_right_mono) simp_all
  then have Nu: "N * u \<le> 1 / 2 ^ 21" by (simp add: u_def)
  have "N * u * B \<le> 1 / 2 ^ 21 * B" using Nu B0 by (rule mult_right_mono)
  then have NuB: "N * (u * B) \<le> B / 2 ^ 21" by (simp add: mult.assoc)
  have NuB0: "0 \<le> N * (u * B)" using N0 uB0 by simp
  have uB: "u * B \<le> B / 2 ^ 53" by (simp add: u_def)
  have E0: "0 \<le> E" using NuB0 by (simp add: E_def)
  have EB: "E \<le> B" unfolding E_def using NuB B0 by simp
  have E'B: "E' \<le> B" unfolding E'_def E_def using NuB uB B0 by simp
  have EE': "E \<le> E'" unfolding E'_def using uB0 by simp
  have "N * u * S \<le> 1 / 2 ^ 21 * S" using Nu S0 by (rule mult_right_mono)
  then have NX: "N * X \<le> S / 2 ^ 21" by (simp add: X_def mult.assoc)
  have NX0: "0 \<le> N * X" using N0 X0 by simp
  have "N * (N * X) \<le> N * (S / 2 ^ 21)" using NX N0 by (rule mult_left_mono)
  then have NNX: "N * (N * X) \<le> N * S / 2 ^ 21" by simp
  have NNX0: "0 \<le> N * (N * X)" using N0 NX0 by simp
  have NS0: "0 \<le> N * S" using N0 S0 by simp
  have GkS: "G \<le> k * S" unfolding G_def kN using NNX NS0 S0 by (simp add: algebra_simps)
  have G0: "0 \<le> G" using NNX0 by (simp add: G_def)
  have e': "\<bar>m - \<mu>\<bar> \<le> E" using e by (simp add: E_def N_def u_def)
  have F': "\<bar>M - Q\<bar> \<le> G"
    using F by (simp add: G_def N_def X_def S_def u_def power2_eq_square algebra_simps)
  have Q': "Q \<le> 4 * k * B\<^sup>2"
    using Q(2) S0 N0 unfolding kN N_def[symmetric] S_def[symmetric] by (simp add: algebra_simps)
  have mu'': "\<bar>\<mu>'\<bar> \<le> B" using mu' by (simp add: \<mu>'_def k_def)
  have S800: "S \<le> 2 ^ 800"
  proof -
    have "B\<^sup>2 \<le> (2 ^ 400)\<^sup>2" using B(2) B0 by (intro power_mono)
    also have "\<dots> = (2::real) ^ 800" by (simp only: power_mult[symmetric]) simp
    finally show ?thesis by (simp only: S_def)
  qed
  have B800: "B \<le> 2 ^ 800"
  proof -
    have "(2::real) ^ 400 \<le> 2 ^ 800" by (simp only: power_increasing_iff)
    with B(2) show ?thesis by linarith
  qed
  note fin1 = small_magnitude[OF _ _ B0 B800]
  note fin2 = small_magnitude[OF _ _ S0 S800]
  note fl1 = fl_Finite[folded u_def \<eta>_def]
  have c: "fl (double_of_uint (numTimeSteps r + 1)) = Finite k"
  proof -
    have "double_of_uint (numTimeSteps r + 1) = Finite (real (Suc n))"
      using double_of_uint_of_nat[OF n] by (simp add: r(4) add.commute)
    moreover have "round64 (real_of_int (int (Suc n))) = Finite (real_of_int (int (Suc n)))"
      using n by (intro round64_of_int) simp
    ultimately show ?thesis by (simp add: k_def)
  qed
  have am: "\<bar>a - m\<bar> \<le> 3 * B" using a mu e' EB by linarith
  obtain \<delta> where d: "fl (Finite (a - m)) = Finite \<delta>" "\<bar>\<delta> - (a - m)\<bar> \<le> u * \<bar>a - m\<bar> + \<eta>"
    using fl1[OF fin1[OF am]] by auto
  have d4: "\<bar>\<delta>\<bar> \<le> 4 * B"
    using rounding_bound[OF u(1,2) eta(1) B0 am _ d(2)] by simp
  have "\<bar>\<delta> / k\<bar> = \<bar>\<delta>\<bar> / k" using k1 by simp
  also have "\<dots> \<le> \<bar>\<delta>\<bar> / 1" using k1 by (intro divide_left_mono) simp_all
  finally have dk: "\<bar>\<delta> / k\<bar> \<le> 4 * B" using d4 by simp
  obtain w where w: "fl (Finite (\<delta> / k)) = Finite w" "\<bar>w - \<delta> / k\<bar> \<le> u * \<bar>\<delta> / k\<bar> + \<eta>"
    using fl1[OF fin1[OF dk]] by auto
  have w5: "\<bar>w\<bar> \<le> 5 * B"
    using rounding_bound[OF u(1,2) eta(1) B0 dk _ w(2)] by simp
  have mw: "\<bar>m + w\<bar> \<le> 7 * B" using w5 mu e' EB by linarith
  obtain m' where m': "fl (Finite (m + w)) = Finite m'" "\<bar>m' - (m + w)\<bar> \<le> u * \<bar>m + w\<bar> + \<eta>"
    using fl1[OF fin1[OF mw]] by auto
  have em: "\<bar>m' - \<mu>'\<bar> \<le> E + 20 * (u * B)"
    unfolding \<mu>'_def
    using u(1,3) eta0 eta(1) a mu e' EB k1 d(2) w(2) m'(2) by (rule welford_mean_step(7))
  then have em': "\<bar>m' - \<mu>'\<bar> \<le> E'" by (simp add: E'_def)
  have am': "\<bar>a - m'\<bar> \<le> 3 * B" using a mu'' em' E'B by linarith
  obtain \<delta>2 where d2: "fl (Finite (a - m')) = Finite \<delta>2"
      "\<bar>\<delta>2 - (a - m')\<bar> \<le> u * \<bar>a - m'\<bar> + \<eta>"
    using fl1[OF fin1[OF am']] by auto
  have d24: "\<bar>\<delta>2\<bar> \<le> 4 * B"
    using rounding_bound[OF u(1,2) eta(1) B0 am' _ d2(2)] by simp
  have "\<bar>\<delta> * \<delta>2\<bar> \<le> (4 * B) * (4 * B)"
    unfolding abs_mult using d4 d24 B0 by (intro mult_mono) simp_all
  then have dd: "\<bar>\<delta> * \<delta>2\<bar> \<le> 16 * S" by (simp add: S_def power2_eq_square)
  obtain \<pi> where p: "fl (Finite (\<delta> * \<delta>2)) = Finite \<pi>"
      "\<bar>\<pi> - \<delta> * \<delta>2\<bar> \<le> u * \<bar>\<delta> * \<delta>2\<bar> + \<eta>"
    using fl1[OF fin2[OF dd]] by auto
  have p17: "\<bar>\<pi>\<bar> \<le> 17 * S"
    using rounding_bound[OF u(1,2) eta(2)[folded S_def] S0 dd _ p(2)] by simp
  have "Q \<le> 4 * (N * S)" using Q(2) by (simp add: N_def S_def)
  then have "\<bar>M + \<pi>\<bar> \<le> 5 * (N * S) + 18 * S"
    using F' Q(1) GkS p17 unfolding kN by (simp add: algebra_simps)
  then have Mp: "\<bar>M + \<pi>\<bar> \<le> (5 * N + 18) * S" by (simp add: algebra_simps)
  have "5 * N + 18 \<le> 2 ^ 40" using N32 by simp
  from fl1[OF fin2[OF Mp this]]
  obtain M' where M': "fl (Finite (M + \<pi>)) = Finite M'"
      "\<bar>M' - (M + \<pi>)\<bar> \<le> u * \<bar>M + \<pi>\<bar> + \<eta>"
    by auto
  have "\<bar>M' - (Q + (a - \<mu>) * (a - \<mu>'))\<bar>
           \<le> G + 59 * (u * B\<^sup>2) + 5 * k * (u * B\<^sup>2) + 4 * (B * E) + 2 * (B * E')"
    using u(1,2) eta0 eta a mu mu'' e' em' EB E'B k1 d(2) d2(2) p(2) M'(2) F' Q(1) Q'
      GkS[unfolded S_def]
    by (rule welford_M2_step(6))
  moreover have "u * B\<^sup>2 = X" by (simp add: X_def S_def)
  moreover have "B * E = 20 * (N * X)"
    by (simp add: E_def X_def S_def power2_eq_square algebra_simps)
  moreover have "B * E' = 20 * (N * X) + 20 * X"
    by (simp add: E'_def E_def X_def S_def power2_eq_square algebra_simps)
  moreover have "184 * k\<^sup>2 * X = 184 * (N * (N * X)) + 368 * (N * X) + 184 * X"
    by (simp add: kN power2_eq_square algebra_simps)
  ultimately have eM: "\<bar>M' - (Q + (a - \<mu>) * (a - \<mu>'))\<bar> \<le> 184 * k\<^sup>2 * X"
    using NX0 X0 unfolding G_def kN by (simp add: algebra_simps)
  have em2: "\<bar>m' - \<mu>'\<bar> \<le> 20 * k * (u * B)"
    using em unfolding E_def kN by (simp add: algebra_simps)
  note rs = d(1)[unfolded fl.simps] w(1)[unfolded fl.simps] m'(1)[unfolded fl.simps]
    d2(1)[unfolded fl.simps] p(1)[unfolded fl.simps] M'(1)[unfolded fl.simps]
  have mean: "awakeTimeMean (updateStatistics64 r) = Finite m'"
    using k0 by (simp add: updateStatistics64_def Let_def r(1-3) dsub_def c rs)
  have m2: "awakeTimeM2 (updateStatistics64 r) = Finite M'"
    using k0
    by (simp add: updateStatistics64_def Let_def r(1-3) dsub_def c rs)
  show "numTimeSteps (updateStatistics64 r) = of_nat (Suc n)"
    by (simp add: updateStatistics64_def Let_def r(4))
  show "\<exists>m' M'. awakeTimeMean (updateStatistics64 r) = Finite m' \<and>
           awakeTimeM2 (updateStatistics64 r) = Finite M' \<and>
           \<bar>m' - (\<mu> + (a - \<mu>) / real (Suc n))\<bar> \<le> 20 * real (Suc n) * (B / 2 ^ 53) \<and>
           \<bar>M' - (Q + (a - \<mu>) * (a - (\<mu> + (a - \<mu>) / real (Suc n))))\<bar>
              \<le> 184 * (real (Suc n))\<^sup>2 * (B\<^sup>2 / 2 ^ 53)"
    using mean m2 em2 eM
    by (simp add: \<mu>'_def k_def u_def X_def S_def)
qed

lemma sum_list_bounds:
  fixes f :: "real \<Rightarrow> real"
  assumes "\<forall>x\<in>set xs. l \<le> f x \<and> f x \<le> c"
  shows "real (length xs) * l \<le> (\<Sum>x\<leftarrow>xs. f x)" and "(\<Sum>x\<leftarrow>xs. f x) \<le> real (length xs) * c"
  using assms by (induction xs) (auto simp: algebra_simps intro: add_mono)

lemma mean_bound:
  assumes "\<forall>x\<in>set xs. \<bar>x\<bar> \<le> B" and "0 \<le> B"
  shows "\<bar>arithmetic_mean xs\<bar> \<le> B"
proof (cases "xs = []")
  case True
  then show ?thesis using assms(2) by (simp add: arithmetic_mean_def)
next
  case False
  then have n: "0 < real (length xs)" by simp
  have "\<forall>x\<in>set xs. - B \<le> (\<lambda>x. x) x \<and> (\<lambda>x. x) x \<le> B" using assms(1) by auto
  from sum_list_bounds[OF this] have "\<bar>sum_list xs\<bar> \<le> real (length xs) * B" by simp
  then have "\<bar>sum_list xs\<bar> / real (length xs) \<le> B"
    using n by (simp add: pos_divide_le_eq mult.commute)
  then show ?thesis using n by (simp add: arithmetic_mean_def)
qed

lemma squared_deviations_bound:
  assumes "\<forall>x\<in>set xs. \<bar>x\<bar> \<le> B" and "0 \<le> B"
  shows "0 \<le> (\<Sum>x\<leftarrow>xs. (x - arithmetic_mean xs)\<^sup>2)"
    and "(\<Sum>x\<leftarrow>xs. (x - arithmetic_mean xs)\<^sup>2) \<le> 4 * real (length xs) * B\<^sup>2"
proof -
  let ?m = "arithmetic_mean xs"
  have m: "\<bar>?m\<bar> \<le> B" using assms by (rule mean_bound)
  have "\<forall>x\<in>set xs. 0 \<le> (x - ?m)\<^sup>2 \<and> (x - ?m)\<^sup>2 \<le> 4 * B\<^sup>2"
  proof
    fix x assume "x \<in> set xs"
    then have "\<bar>x\<bar> \<le> B" using assms(1) by simp
    then have "\<bar>x - ?m\<bar> \<le> 2 * B" using m by linarith
    then have "\<bar>x - ?m\<bar>\<^sup>2 \<le> (2 * B)\<^sup>2" by (intro power_mono) simp_all
    then show "0 \<le> (x - ?m)\<^sup>2 \<and> (x - ?m)\<^sup>2 \<le> 4 * B\<^sup>2" by (simp add: power_mult_distrib)
  qed
  from sum_list_bounds[OF this]
  show "0 \<le> (\<Sum>x\<leftarrow>xs. (x - arithmetic_mean xs)\<^sup>2)"
    and "(\<Sum>x\<leftarrow>xs. (x - arithmetic_mean xs)\<^sup>2) \<le> 4 * real (length xs) * B\<^sup>2"
    by simp_all
qed

lemma mean_append_one:
  "arithmetic_mean xs + (x - arithmetic_mean xs) / real (Suc (length xs))
      = arithmetic_mean (xs @ [x])"
proof -
  have N: "0 \<le> real (length xs)" by simp
  show ?thesis
    using welford_step_mean[OF N, of "arithmetic_mean xs" x]
    by (simp add: mean_snoc add.commute)
qed

lemma squared_deviations_append_one:
  "(\<Sum>y\<leftarrow>xs. (y - arithmetic_mean xs)\<^sup>2) +
      (x - arithmetic_mean xs) * (x - arithmetic_mean (xs @ [x]))
    = (\<Sum>y\<leftarrow>xs @ [x]. (y - arithmetic_mean (xs @ [x]))\<^sup>2)"
proof -
  have N: "0 \<le> real (length xs)" by simp
  show ?thesis
    unfolding sum_squared_deviations_mean
    using welford_step_M2[OF N, of "\<Sum>x\<leftarrow>xs. x\<^sup>2" "arithmetic_mean xs" x]
    by (simp add: mean_snoc add.commute)
qed

lemma feed64_snoc: "feed64 (xs @ [x]) r = updateStatistics64 ((feed64 xs r)\<lparr>awakeTime := x\<rparr>)"
  by (simp add: feed64_def)

lemma feed64_Nil: "feed64 [] r = r"
  by (simp add: feed64_def)

lemma feed64_statistics:
  assumes "numTimeSteps r = 0" "awakeTimeMean r = Finite 0" "awakeTimeM2 r = Finite 0"
    and "1 / 2 ^ 500 \<le> B" "B \<le> 2 ^ 400"
    and "length xs < 2 ^ 32" and "\<forall>x\<in>set xs. \<bar>x\<bar> \<le> B"
  shows "numTimeSteps (feed64 (map Finite xs) r) = of_nat (length xs) \<and>
     (\<exists>m M. awakeTimeMean (feed64 (map Finite xs) r) = Finite m \<and>
        awakeTimeM2 (feed64 (map Finite xs) r) = Finite M \<and>
        \<bar>m - arithmetic_mean xs\<bar> \<le> 20 * real (length xs) * (B / 2 ^ 53) \<and>
        \<bar>M - (\<Sum>x\<leftarrow>xs. (x - arithmetic_mean xs)\<^sup>2)\<bar>
           \<le> 184 * (real (length xs))\<^sup>2 * (B\<^sup>2 / 2 ^ 53))"
  using assms(6,7)
proof (induction xs rule: rev_induct)
  case Nil
  then show ?case
    by (simp add: feed64_Nil assms(1-3) arithmetic_mean_def)
next
  case (snoc x xs)
  let ?r = "(feed64 (map Finite xs) r)\<lparr>awakeTime := Finite x\<rparr>"
  have B0: "0 \<le> B" using assms(4) by (rule order_trans[rotated]) simp
  from snoc.prems have n: "Suc (length xs) < 2 ^ 32" and xs: "\<forall>x\<in>set xs. \<bar>x\<bar> \<le> B"
    and x: "\<bar>x\<bar> \<le> B" and all: "\<forall>y\<in>set (xs @ [x]). \<bar>y\<bar> \<le> B"
    by simp_all
  from n have "length xs < 2 ^ 32" by simp
  from snoc.IH[OF this xs] obtain m M where
    ih: "numTimeSteps ?r = of_nat (length xs)" "awakeTimeMean ?r = Finite m"
      "awakeTimeM2 ?r = Finite M"
      "\<bar>m - arithmetic_mean xs\<bar> \<le> 20 * real (length xs) * (B / 2 ^ 53)"
      "\<bar>M - (\<Sum>x\<leftarrow>xs. (x - arithmetic_mean xs)\<^sup>2)\<bar>
           \<le> 184 * (real (length xs))\<^sup>2 * (B\<^sup>2 / 2 ^ 53)"
    by auto
  have a: "awakeTime ?r = Finite x" by simp
  have mu: "\<bar>arithmetic_mean xs\<bar> \<le> B" using xs B0 by (rule mean_bound)
  have "\<bar>arithmetic_mean (xs @ [x])\<bar> \<le> B" using all B0 by (rule mean_bound)
  then have mu': "\<bar>arithmetic_mean xs + (x - arithmetic_mean xs) / real (Suc (length xs))\<bar> \<le> B"
    by (simp only: mean_append_one)
  note Q = squared_deviations_bound[OF xs B0]
  from updateStatistics64_step[OF a ih(2,3,1) n assms(4,5) x mu mu' ih(4,5) Q]
  show ?case
    unfolding map_append list.map feed64_snoc mean_append_one squared_deviations_append_one
    by simp
qed

lemma feed64_direct:
  fixes B :: real
  assumes "\<forall>x\<in>set xs. \<bar>x\<bar> \<le> B" and "1 / 2 ^ 500 \<le> B" and "B \<le> 2 ^ 400"
    and "xs \<noteq> []" and "length xs < 2 ^ 32"
  shows "numTimeSteps (feed64 (map Finite xs) (reset now r)) = of_nat (length xs)"
    and "\<exists>m. getAwakeTimeMean (feed64 (map Finite xs) (reset now r)) = Finite m \<and>
           \<bar>m - arithmetic_mean xs\<bar> \<le> 20 * real (length xs) * B / 2 ^ 53"
    and "2 \<le> length xs \<Longrightarrow>
         \<exists>v. getAwakeTimeVar64 (feed64 (map Finite xs) (reset now r)) = Finite v \<and>
           \<bar>v - sample_variance xs\<bar> \<le> 400 * real (length xs) * B\<^sup>2 / 2 ^ 53"
proof -
  let ?r = "feed64 (map Finite xs) (reset now r)"
  define N where "N = real (length xs)"
  define u :: real where "u = 1 / 2 ^ 53"
  define \<eta> :: real where "\<eta> = 1 / 2 ^ 1075"
  define S where "S = B\<^sup>2"
  define X where "X = u * S"
  define Q where "Q = (\<Sum>x\<leftarrow>xs. (x - arithmetic_mean xs)\<^sup>2)"
  from feed64_statistics[OF reset_statistics(1-3) assms(2,3,5,1)] obtain m M where
    n: "numTimeSteps ?r = of_nat (length xs)" and
    m: "awakeTimeMean ?r = Finite m" "\<bar>m - arithmetic_mean xs\<bar> \<le> 20 * real (length xs) * (B / 2 ^ 53)" and
    M: "awakeTimeM2 ?r = Finite M" "\<bar>M - Q\<bar> \<le> 184 * (real (length xs))\<^sup>2 * (B\<^sup>2 / 2 ^ 53)"
    unfolding Q_def by blast
  show "numTimeSteps ?r = of_nat (length xs)" by (rule n)
  have un: "unat (numTimeSteps ?r) = length xs"
    using assms(5) by (simp add: n unat_of_nat take_bit_nat_eq_self)
  then have "numTimeSteps ?r \<noteq> 0"
    using assms(4) by auto
  then have "getAwakeTimeMean ?r = Finite m"
    by (simp add: getAwakeTimeMean_def m(1))
  with m(2) show "\<exists>m. getAwakeTimeMean ?r = Finite m \<and>
           \<bar>m - arithmetic_mean xs\<bar> \<le> 20 * real (length xs) * B / 2 ^ 53"
    by simp
  show "\<exists>v. getAwakeTimeVar64 ?r = Finite v \<and>
           \<bar>v - sample_variance xs\<bar> \<le> 400 * real (length xs) * B\<^sup>2 / 2 ^ 53"
    if two: "2 \<le> length xs"
  proof -
    have B0: "0 \<le> B" using assms(2) by (rule order_trans[rotated]) simp
    have u: "0 \<le> u" "u \<le> 1 / 32" by (simp_all add: u_def)
    have eta: "\<eta> \<le> u * S"
      unfolding \<eta>_def u_def S_def using rounding_constants(2)[OF assms(2)] by simp
    have S0: "0 \<le> S" by (simp add: S_def)
    have X0: "0 \<le> X" using u S0 by (simp add: X_def)
    have N2: "2 \<le> N" using two by (simp add: N_def)
    have "real (length xs) < 2 ^ 32"
      using assms(5) by (metis of_nat_less_iff of_nat_numeral of_nat_power)
    then have N32: "N < 2 ^ 32" by (simp add: N_def)
    have "N * u \<le> 2 ^ 32 * u" using N32 u(1) by (intro mult_right_mono) simp_all
    then have Nu: "N * u \<le> 1 / 2 ^ 21" by (simp add: u_def)
    have "N * u * S \<le> 1 / 2 ^ 21 * S" using Nu S0 by (rule mult_right_mono)
    then have NX: "N * X \<le> S / 2 ^ 21" by (simp add: X_def mult.assoc)
    have NX0: "0 \<le> N * X" using N2 X0 by simp
    have NS0: "0 \<le> N * S" using N2 S0 by simp
    have "N * (N * X) \<le> N * (S / 2 ^ 21)" using NX N2 by (intro mult_left_mono) simp_all
    then have "N * (N * X) \<le> N * S / 2 ^ 21" by simp
    moreover have "184 * (N * S / 2 ^ 21) \<le> N * S" using NS0 by simp
    ultimately have NNX: "184 * (N * (N * X)) \<le> N * S" by linarith
    have MQ: "\<bar>M - Q\<bar> \<le> 184 * (N * (N * X))"
      using M(2) by (simp add: N_def X_def S_def u_def power2_eq_square algebra_simps)
    have Q: "0 \<le> Q" "Q \<le> 4 * (N * S)"
      using squared_deviations_bound[OF assms(1) B0] by (simp_all add: Q_def N_def S_def)
    have Mb: "\<bar>M\<bar> \<le> 5 * (N * S)" using MQ Q NNX NS0 by linarith
    define d where "d = N - 1"
    have d1: "1 \<le> d" "0 < d" "N \<le> 2 * d" using N2 by (simp_all add: d_def)
    have div: "x / d \<le> 2 * c" if "x \<le> N * c" "0 \<le> c" for x c
    proof -
      have "N * c \<le> 2 * d * c" using d1(3) that(2) by (rule mult_right_mono)
      then have "x \<le> (2 * c) * d" using that(1) by (simp add: mult.commute mult.left_commute)
      then show ?thesis using d1(2) by (simp add: pos_divide_le_eq)
    qed
    have "\<bar>M / d\<bar> = \<bar>M\<bar> / d" using d1 by simp
    also have "\<dots> \<le> 2 * (5 * S)"
      using Mb S0 by (intro div) (simp_all add: algebra_simps)
    finally have Md: "\<bar>M / d\<bar> \<le> 10 * S" by simp
    have S800: "S \<le> 2 ^ 800"
    proof -
      have "B\<^sup>2 \<le> (2 ^ 400)\<^sup>2" using assms(3) B0 by (intro power_mono)
      also have "\<dots> = (2::real) ^ 800" by (simp only: power_mult[symmetric]) simp
      finally show ?thesis by (simp only: S_def)
    qed
    have "(10::real) \<le> 2 ^ 40" by simp
    from fl_Finite[OF small_magnitude[OF Md this S0 S800], folded u_def \<eta>_def]
    obtain v where v: "fl (Finite (M / d)) = Finite v" "\<bar>v - M / d\<bar> \<le> u * \<bar>M / d\<bar> + \<eta>"
      by auto
    have "u * \<bar>M / d\<bar> \<le> u * (10 * S)" using Md u(1) by (rule mult_left_mono)
    then have e1: "\<bar>v - M / d\<bar> \<le> 11 * X" using v(2) eta by (simp add: X_def)
    have "\<bar>M / d - Q / d\<bar> = \<bar>M - Q\<bar> / d"
      using d1 by (simp add: diff_divide_distrib[symmetric])
    also have "\<dots> \<le> 2 * (184 * (N * X))"
      using MQ NX0 by (intro div) (simp_all add: algebra_simps)
    finally have e2: "\<bar>M / d - Q / d\<bar> \<le> 368 * (N * X)" by simp
    have "X \<le> N * X" using N2 X0 by (simp add: mult_le_cancel_right1)
    then have e: "\<bar>v - Q / d\<bar> \<le> 400 * (N * X)" using e1 e2 X0 by linarith
    have sv: "sample_variance xs = Q / d"
      by (simp add: sample_variance_def Q_def d_def N_def)
    have n1: "numTimeSteps ?r - 1 = of_nat (length xs - 1)"
      using two by (simp add: n)
    have nle: "\<not> numTimeSteps ?r \<le> 1"
      using two by (simp add: word_le_nat_alt un)
    have l1: "length xs - 1 < 2 ^ 32" using assms(5) by simp
    have "double_of_uint (numTimeSteps ?r - 1) = Finite (real (length xs - 1))"
      unfolding n1 using double_of_uint_of_nat[OF l1] .
    moreover have "round64 (real_of_int (int (length xs - 1))) = Finite (real_of_int (int (length xs - 1)))"
      using l1 by (intro round64_of_int) simp
    moreover have "real (length xs - 1) = d" using two by (simp add: d_def N_def of_nat_diff)
    ultimately have c: "fl (double_of_uint (numTimeSteps ?r - 1)) = Finite d" by simp
    have "getAwakeTimeVar64 ?r = Finite v"
      using nle d1(2) v(1)[unfolded fl.simps] by (simp add: getAwakeTimeVar64_def c M(1))
    moreover have "\<bar>v - sample_variance xs\<bar> \<le> 400 * real (length xs) * B\<^sup>2 / 2 ^ 53"
      using e unfolding sv by (simp add: N_def X_def S_def u_def)
    ultimately show ?thesis by blast
  qed
qed

text \<open>
  A sequence that repeats one double keeps the mean at that double and \<open>awakeTimeM2\<close> at
  zero, until the \<open>2^32\<close>th sample wraps the count to zero and the update divides zero
  by zero. For the samples 0, 1, 1 the rounding shows in the third update: the quotient
  \<open>1/6\<close> rounds down, the new mean, the sum of \<open>1/2\<close> and the rounded quotient, rounds
  down to \<open>6004799503160661 / 2^53\<close>, and the new \<open>awakeTimeM2\<close> lies halfway between
  two doubles and rounds to \<open>6004799503160662 / 2^53\<close>. The arithmetic mean and the sum
  of the squared deviations of these samples are both \<open>2/3\<close>.
\<close>

lemma updateStatistics64_first:
  assumes "numTimeSteps r = 0" "awakeTime r = Finite c" "awakeTimeMean r = Finite 0"
    "awakeTimeM2 r = Finite 0" and "round64 c = Finite c"
  shows "numTimeSteps (updateStatistics64 r) = 1"
    and "awakeTimeMean (updateStatistics64 r) = Finite c"
    and "awakeTimeM2 (updateStatistics64 r) = Finite 0"
  using assms round64_of_int[of 1]
  by (simp_all add: updateStatistics64_def Let_def dsub_def double_of_uint_def round64_zero)

lemma updateStatistics64_same:
  assumes "numTimeSteps r = of_nat n" "0 < n" "Suc n < 2 ^ 32" "awakeTime r = Finite c"
    "awakeTimeMean r = Finite c" "awakeTimeM2 r = Finite 0" and "round64 c = Finite c"
  shows "numTimeSteps (updateStatistics64 r) = of_nat (Suc n)"
    and "awakeTimeMean (updateStatistics64 r) = Finite c"
    and "awakeTimeM2 (updateStatistics64 r) = Finite 0"
proof -
  have "double_of_uint (numTimeSteps r + 1) = Finite (real (Suc n))"
    using double_of_uint_of_nat[OF assms(3)] by (simp add: assms(1) add.commute)
  moreover have "round64 (real_of_int (int (Suc n))) = Finite (real_of_int (int (Suc n)))"
    using assms(3) by (intro round64_of_int) simp
  ultimately have c: "fl (double_of_uint (numTimeSteps r + 1)) = Finite (real (Suc n))"
    by simp
  show "numTimeSteps (updateStatistics64 r) = of_nat (Suc n)"
    by (simp add: updateStatistics64_def Let_def assms(1))
  show "awakeTimeMean (updateStatistics64 r) = Finite c"
    using assms(4-7) by (simp add: updateStatistics64_def Let_def dsub_def c round64_zero)
  show "awakeTimeM2 (updateStatistics64 r) = Finite 0"
    using assms(4-7) by (simp add: updateStatistics64_def Let_def dsub_def c round64_zero)
qed

lemma updateStatistics64_wrap:
  assumes "numTimeSteps r + 1 = 0" "awakeTime r = Finite c" "awakeTimeMean r = Finite c"
  shows "awakeTimeMean (updateStatistics64 r) = NaN"
  using assms
  by (simp add: updateStatistics64_def Let_def dsub_def double_of_uint_def round64_zero)

lemma feed64_replicate:
  assumes "round64 c = Finite c" and "Suc n < 2 ^ 32"
  shows "numTimeSteps (feed64 (map Finite (replicate (Suc n) c)) (reset now r)) = of_nat (Suc n) \<and>
     awakeTimeMean (feed64 (map Finite (replicate (Suc n) c)) (reset now r)) = Finite c \<and>
     awakeTimeM2 (feed64 (map Finite (replicate (Suc n) c)) (reset now r)) = Finite 0"
  using assms(2)
proof (induction n)
  case 0
  let ?r = "(reset now r)\<lparr>awakeTime := Finite c\<rparr>"
  have "numTimeSteps ?r = 0" "awakeTime ?r = Finite c" "awakeTimeMean ?r = Finite 0"
    "awakeTimeM2 ?r = Finite 0"
    by (simp_all add: reset_statistics)
  from updateStatistics64_first[OF this assms(1)] show ?case
    by (simp add: feed64_def)
next
  case (Suc n)
  let ?xs = "map Finite (replicate (Suc n) c)"
  let ?r = "(feed64 ?xs (reset now r))\<lparr>awakeTime := Finite c\<rparr>"
  from Suc.prems have n: "Suc (Suc n) < 2 ^ 32" and n': "Suc n < 2 ^ 32" by simp_all
  from Suc.IH[OF n'] have
    ih: "numTimeSteps ?r = of_nat (Suc n)" "awakeTimeMean ?r = Finite c"
      "awakeTimeM2 ?r = Finite 0"
    by (simp_all del: replicate.simps)
  have a: "awakeTime ?r = Finite c" by simp
  have split: "map Finite (replicate (Suc (Suc n)) c) = ?xs @ [Finite c]"
    by (simp add: replicate_append_same)
  have pos: "0 < Suc n" by simp
  note u = updateStatistics64_same[OF ih(1) pos n a ih(2,3) assms(1)]
  show ?case
    unfolding split feed64_snoc using u by blast
qed

lemma feed64_wraps:
  assumes "round64 c = Finite c"
  shows "awakeTimeMean (feed64 (map Finite (replicate (2 ^ 32) c)) (reset now r)) = NaN"
proof -
  define n :: nat where "n = 2 ^ 32 - 2"
  let ?xs = "replicate (Suc n) c"
  let ?r = "feed64 (map Finite ?xs) (reset now r)"
  have "Suc n < 2 ^ 32" by (simp add: n_def)
  from feed64_replicate[OF assms this] have
    c: "numTimeSteps ?r = of_nat (Suc n)" and
    m: "awakeTimeMean ?r = Finite c"
    by blast+
  have s: "Suc (Suc n) = 2 ^ 32" by (simp add: n_def)
  have "replicate (Suc (Suc n)) c = ?xs @ [c]"
    by (simp add: replicate_append_same)
  then have split: "replicate (2 ^ 32) c = ?xs @ [c]"
    by (simp only: s)
  have "(of_nat (Suc n) :: 32 word) + 1 = of_nat (Suc (Suc n))" by simp
  also have "\<dots> = 0" unfolding s by simp
  finally have z: "numTimeSteps ?r + 1 = 0"
    by (simp only: c)
  let ?r1 = "?r\<lparr>awakeTime := Finite c\<rparr>"
  have "numTimeSteps ?r1 + 1 = 0" using z by simp
  moreover have "awakeTime ?r1 = Finite c" by simp
  moreover have "awakeTimeMean ?r1 = Finite c" using m by simp
  ultimately have "awakeTimeMean (updateStatistics64 ?r1) = NaN"
    by (rule updateStatistics64_wrap)
  then show ?thesis
    unfolding split map_append list.map feed64_snoc .
qed

lemma round64_nearest:
  assumes "y * 2 ^ j = c" and "j \<le> 1074" and "2 ^ 52 \<le> c" and "c < 2 ^ 53"
    and "round_even c = i"
  shows "round64 y = Finite (real_of_int i / 2 ^ j)"
proof -
  define S :: real where "S = 2 ^ 1074"
  define T :: int where "T = 2 ^ 2098"
  define Y :: real where "Y = \<bar>y\<bar> * 2 ^ 1074"
  define k where "k = nat (bitlen \<lfloor>Y\<rfloor> - 53)"
  define t where "t = 1074 - j"
  have t: "1074 = t + j" using assms(2) by (simp add: t_def)
  have c0: "0 < c" using assms(3) by (rule less_le_trans[rotated]) simp
  have "0 < y * 2 ^ j" using c0 assms(1) by simp
  then have y0: "0 < y" by (simp add: zero_less_mult_iff)
  have "Y = y * 2 ^ (t + j)" unfolding Y_def using y0 by (simp only: t[symmetric])
  then have Y: "Y = c * 2 ^ t" using assms(1) by (simp add: power_add mult.assoc mult.commute)
  have "real_of_int (2 ^ 52 * 2 ^ t) \<le> Y"
    unfolding Y using assms(3) by simp
  then have lo: "2 ^ (52 + t) \<le> \<lfloor>Y\<rfloor>"
    unfolding power_add using le_floor_iff by blast
  have "Y < real_of_int (2 ^ 53 * 2 ^ t)"
    unfolding Y using assms(4) by simp
  then have hi: "\<lfloor>Y\<rfloor> < 2 ^ Suc (52 + t)"
    using floor_less_iff[of Y "2 ^ 53 * 2 ^ t"] by (simp add: power_add)
  have "bitlen \<lfloor>Y\<rfloor> = int (Suc (52 + t))"
    using lo hi by (rule bitlen_eqI)
  then have k: "k = t" by (simp add: k_def)
  have "Y / 2 ^ k = c" unfolding k Y by simp
  then have R: "round_mag y = i * 2 ^ t"
    unfolding round_mag_alt[OF Y_def k_def] k using assms(5) by simp
  have "round_even c \<le> 2 ^ 53"
    using round_even_le_int[of c "2 ^ 53"] assms(4) by simp
  then have i: "i \<le> 2 ^ 53" using assms(5) by simp
  have "i * 2 ^ t \<le> 2 ^ 53 * (2::int) ^ t" using i by (intro mult_right_mono) simp_all
  also have "\<dots> = 2 ^ (53 + t)" by (simp only: power_add)
  also have "\<dots> < 2 ^ 2098" unfolding t_def by (simp only: power_strict_increasing_iff)
  finally have fin: "\<not> T \<le> round_mag y" unfolding R T_def by linarith
  have "real_of_int (i * 2 ^ t) / S = real_of_int i / 2 ^ j"
    unfolding S_def t by (simp add: power_add)
  then show ?thesis
    unfolding round64_unfold[OF S_def T_def] using fin y0 by (simp add: R)
qed

lemma round64_sixth: "round64 (1 / 6) = Finite (6004799503160661 / 2 ^ 55)"
  using round64_nearest[of "1 / 6" 55 "2 ^ 55 / 6" 6004799503160661]
  by (simp add: round_even_def Let_def)

lemma round64_two_thirds:
  "round64 (1 / 2 + 6004799503160661 / 2 ^ 55) = Finite (6004799503160661 / 2 ^ 53)"
  using round64_nearest[of "1 / 2 + 6004799503160661 / 2 ^ 55" 53 "24019198012642645 / 4"
      6004799503160661]
  by (simp add: round_even_def Let_def)

lemma round64_two_thirds_tie:
  "round64 (1 / 2 + 3002399751580331 / 2 ^ 54) = Finite (6004799503160662 / 2 ^ 53)"
  using round64_nearest[of "1 / 2 + 3002399751580331 / 2 ^ 54" 53 "12009599006321323 / 2"
      6004799503160662]
  by (simp add: round_even_def Let_def)

lemma feed64_thirds:
  "numTimeSteps (feed64 (map Finite [0, 1, 1]) (reset now r)) = 3"
  "awakeTimeMean (feed64 (map Finite [0, 1, 1]) (reset now r)) = Finite (6004799503160661 / 2 ^ 53)"
  "awakeTimeM2 (feed64 (map Finite [0, 1, 1]) (reset now r)) = Finite (6004799503160662 / 2 ^ 53)"
  "getAwakeTimeVar64 (feed64 (map Finite [0, 1, 1]) (reset now r))
     = Finite (3002399751580331 / 2 ^ 53)"
proof -
  note rs = round64_zero round64_of_int[of 1] round64_of_int[of 2] round64_of_int[of 3]
    round64_dyadic[of "1 / 2" 1 1] round64_sixth round64_two_thirds round64_two_thirds_tie
    round64_dyadic[of "3002399751580331 / 2 ^ 53" 3002399751580331 53]
    round64_dyadic[of "3002399751580331 / 2 ^ 54" 3002399751580331 54]
  show "numTimeSteps (feed64 (map Finite [0, 1, 1]) (reset now r)) = 3"
    by (simp add: feed64_def updateStatistics64_def Let_def reset_def)
  show m: "awakeTimeMean (feed64 (map Finite [0, 1, 1]) (reset now r)) = Finite (6004799503160661 / 2 ^ 53)"
    using rs
    by (simp add: feed64_def updateStatistics64_def Let_def reset_def dsub_def double_of_uint_def)
  show q: "awakeTimeM2 (feed64 (map Finite [0, 1, 1]) (reset now r)) = Finite (6004799503160662 / 2 ^ 53)"
    using rs
    by (simp add: feed64_def updateStatistics64_def Let_def reset_def dsub_def double_of_uint_def)
  show "getAwakeTimeVar64 (feed64 (map Finite [0, 1, 1]) (reset now r))
     = Finite (3002399751580331 / 2 ^ 53)"
    unfolding getAwakeTimeVar64_def q
    using rs
    by (simp add: feed64_def updateStatistics64_def Let_def reset_def double_of_uint_def
        word_le_nat_alt)
qed

subsection \<open>Consecutive calls of sleep\<close>

lemma measured_statistics:
  "awakeTimeMean (fst (measured now1 a r)) = awakeTimeMean (updateStatistics (r\<lparr>awakeTime := a\<rparr>))"
  "awakeTimeM2 (fst (measured now1 a r)) = awakeTimeM2 (updateStatistics (r\<lparr>awakeTime := a\<rparr>))"
  by (simp_all add: measured_def checkThresholds_fields updateStatistics_def Let_def)

lemma sleep_statistics:
  assumes "sleep now1 now2 r = Some (r', diags, out)"
  shows "awakeTime r' = Finite (real_of_int (to_ns now1 - to_ns (sleepEndTime r)) / 1000000000)"
    and "numTimeSteps r' = numTimeSteps r + 1"
    and "awakeTimeMean r' = awakeTimeMean (updateStatistics (r\<lparr>awakeTime := awakeTime r'\<rparr>))"
    and "awakeTimeM2 r' = awakeTimeM2 (updateStatistics (r\<lparr>awakeTime := awakeTime r'\<rparr>))"
proof -
  from assms obtain awake "next" d where
    a: "GetDuration (sleepEndTime r) now1 = Some awake" and
    r': "r' = fst (policy now2 next d (fst (measured now1 awake r)))"
    by (rule sleep_SomeD)
  have aw: "awakeTime r' = awake"
    by (simp add: r' policy_fields measured_fields)
  show "awakeTime r' = Finite (real_of_int (to_ns now1 - to_ns (sleepEndTime r)) / 1000000000)"
    using GetDuration_Some[OF a] aw by simp
  show "numTimeSteps r' = numTimeSteps r + 1"
    by (simp add: r' policy_fields measured_fields)
  show "awakeTimeMean r' = awakeTimeMean (updateStatistics (r\<lparr>awakeTime := awakeTime r'\<rparr>))"
    and "awakeTimeM2 r' = awakeTimeM2 (updateStatistics (r\<lparr>awakeTime := awakeTime r'\<rparr>))"
    unfolding aw by (simp_all add: r' policy_fields measured_statistics)
qed


lemma sleep_config:
  assumes "sleep now1 now2 r = Some (r', diags, out)"
  shows "name r' = name r" "timeStep r' = timeStep r"
    "maxTimeStepWarning r' = maxTimeStepWarning r" "maxTimeStepError r' = maxTimeStepError r"
    "enforceRate r' = enforceRate r" "clockId r' = clockId r"
proof -
  from assms obtain awake "next" d where
    r': "r' = fst (policy now2 next d (fst (measured now1 awake r)))"
    by (rule sleep_SomeD)
  show "name r' = name r" "timeStep r' = timeStep r"
    "maxTimeStepWarning r' = maxTimeStepWarning r" "maxTimeStepError r' = maxTimeStepError r"
    "enforceRate r' = enforceRate r" "clockId r' = clockId r"
    by (simp_all add: r' policy_fields measured_fields)
qed

lemma welford_M2_nonneg:
  fixes a m q :: real
  assumes "0 \<le> q"
  shows "0 \<le> q + (a - m) * (a - (m + (a - m) / real (Suc n)))"
proof -
  have "(a - m) * (a - (m + (a - m) / real (Suc n))) = (a - m)\<^sup>2 * (real n / real (Suc n))"
    by (simp add: field_simps power2_eq_square)
  moreover have "0 \<le> (a - m)\<^sup>2 * (real n / real (Suc n))"
    by simp
  ultimately show ?thesis using assms by simp
qed

lemma sleep_statistics_finite:
  assumes "sleep now1 now2 r = Some (r', diags, out)"
    and "numTimeSteps r = of_nat k" and "Suc k < 2 ^ 32"
    and "isfinite (awakeTimeMean r)" and "isfinite (awakeTimeM2 r)"
    and "dle (Finite 0) (awakeTimeM2 r)"
  shows "numTimeSteps r' = of_nat (Suc k) \<and> isfinite (awakeTime r') \<and>
    isfinite (awakeTimeMean r') \<and> isfinite (awakeTimeM2 r') \<and> dle (Finite 0) (awakeTimeM2 r')"
proof -
  note s = sleep_statistics[OF assms(1)]
  obtain a where a: "awakeTime r' = Finite a" using s(1) by blast
  obtain m where m: "awakeTimeMean r = Finite m" using assms(4) by (cases "awakeTimeMean r") auto
  obtain q where q: "awakeTimeM2 r = Finite q" "0 \<le> q"
    using assms(5,6) by (cases "awakeTimeM2 r") auto
  let ?r = "r\<lparr>awakeTime := Finite a\<rparr>"
  have "awakeTime ?r = Finite a" "awakeTimeMean ?r = Finite m" "awakeTimeM2 ?r = Finite q"
    "numTimeSteps ?r = of_nat k"
    by (simp_all add: m q assms(2))
  note u = updateStatistics_finite[OF this assms(3)]
  show ?thesis
    using s(2-4) u welford_M2_nonneg[OF q(2), of a m k]
    by (simp add: a assms(2))
qed

lemma sleeps_statistics:
  assumes "sleeps cs r = Some r'"
    and "numTimeSteps r = of_nat k" and "k + length cs < 2 ^ 32"
    and "isfinite (awakeTime r)"
    and "isfinite (awakeTimeMean r)" and "isfinite (awakeTimeM2 r)"
    and "dle (Finite 0) (awakeTimeM2 r)"
  shows "numTimeSteps r' = of_nat (k + length cs) \<and> isfinite (awakeTime r') \<and>
    isfinite (awakeTimeMean r') \<and> isfinite (awakeTimeM2 r') \<and> dle (Finite 0) (awakeTimeM2 r')"
  using assms
proof (induction cs arbitrary: r k)
  case Nil
  then show ?case by simp
next
  case (Cons c cs)
  from Cons.prems(1) obtain r1 diags out where
    s: "sleep (fst c) (snd c) r = Some (r1, diags, out)" and rest: "sleeps cs r1 = Some r'"
    by (auto split: option.splits)
  have k: "Suc k < 2 ^ 32" using Cons.prems(3) by simp
  from sleep_statistics_finite[OF s Cons.prems(2) k Cons.prems(5,6,7)]
  have i: "numTimeSteps r1 = of_nat (Suc k)" "isfinite (awakeTime r1)"
    "isfinite (awakeTimeMean r1)" "isfinite (awakeTimeM2 r1)" "dle (Finite 0) (awakeTimeM2 r1)"
    by simp_all
  have "Suc k + length cs < 2 ^ 32" using Cons.prems(3) by simp
  from Cons.IH[OF rest i(1) this i(2-5)] show ?case by simp
qed

lemma sleeps_stepTime_normalized:
  assumes "sleeps cs r = Some r'" and "TimeStepIsValid (timeStep r)"
    and "normalized (stepTime r)" and "normal_samples cs"
  shows "normalized (stepTime r') \<and> to_ns (stepTime r) \<le> to_ns (stepTime r')"
  using assms
proof (induction cs arbitrary: r)
  case Nil
  then show ?case by simp
next
  case (Cons c cs)
  from Cons.prems(1) obtain r1 diags out where
    s: "sleep (fst c) (snd c) r = Some (r1, diags, out)" and rest: "sleeps cs r1 = Some r'"
    by (auto split: option.splits)
  have c: "normalized (snd c)" "normal_samples cs"
    using Cons.prems(4) by (simp_all add: normal_samples_def)
  from sleep_stepTime_normalized[OF s Cons.prems(2,3) c(1)]
  have n1: "normalized (stepTime r1)" .
  have v1: "TimeStepIsValid (timeStep r1)"
    using sleep_config(2)[OF s] Cons.prems(2) by simp
  from Cons.IH[OF rest v1 n1 c(2)] sleep_stepTime_forward[OF s Cons.prems(2,3)]
  show ?case by simp
qed

lemma sleeps_advances:
  assumes "sleeps cs r = Some r'" and "enforceRate r \<or> on_schedule cs r"
  shows "advances (length cs) (timeStep r) (stepTime r) = Some (stepTime r')"
  using assms
proof (induction cs arbitrary: r)
  case Nil
  then show ?case by simp
next
  case (Cons c cs)
  from Cons.prems(1) obtain r1 diags out where
    s: "sleep (fst c) (snd c) r = Some (r1, diags, out)" and rest: "sleeps cs r1 = Some r'"
    by (auto split: option.splits)
  from s obtain awake "next" d where
    n: "nextStepTime (timeStep r) (stepTime r) = Some next" and
    r1: "r1 = fst (policy (snd c) next d (fst (measured (fst c) awake r)))" and
    out: "out = snd (policy (snd c) next d (fst (measured (fst c) awake r)))"
    by (rule sleep_SomeD)
  have keep: "\<not> (dless d (Finite 0) \<and> \<not> enforceRate r)"
  proof (cases "enforceRate r")
    case True
    then show ?thesis by simp
  next
    case False
    with Cons.prems(2) have "out \<noteq> Returned"
      by (simp add: s)
    then show ?thesis
      by (auto simp: out policy_schedule)
  qed
  have st: "stepTime r1 = next"
    using keep by (auto simp: r1 policy_schedule measured_fields)
  have cfg: "timeStep r1 = timeStep r" "enforceRate r1 = enforceRate r"
    using sleep_config(2,5)[OF s] by simp_all
  have "enforceRate r1 \<or> on_schedule cs r1"
    using Cons.prems(2) by (auto simp: cfg s)
  from Cons.IH[OF rest this] show ?case
    by (simp add: n st cfg)
qed



subsection \<open>The loop and the sample sequence\<close>

lemma feed_Cons: "feed (x # xs) r = feed xs (updateStatistics (r\<lparr>awakeTime := x\<rparr>))"
  by (simp add: feed_def)

lemma updateStatistics_cong:
  assumes "numTimeSteps r1 = numTimeSteps r2" "awakeTimeMean r1 = awakeTimeMean r2"
    "awakeTimeM2 r1 = awakeTimeM2 r2" "awakeTime r1 = awakeTime r2"
  shows "numTimeSteps (updateStatistics r1) = numTimeSteps (updateStatistics r2)"
    "awakeTimeMean (updateStatistics r1) = awakeTimeMean (updateStatistics r2)"
    "awakeTimeM2 (updateStatistics r1) = awakeTimeM2 (updateStatistics r2)"
  using assms by (simp_all add: updateStatistics_def Let_def)

lemma feed_cong:
  assumes "numTimeSteps r1 = numTimeSteps r2" "awakeTimeMean r1 = awakeTimeMean r2"
    "awakeTimeM2 r1 = awakeTimeM2 r2"
  shows "numTimeSteps (feed xs r1) = numTimeSteps (feed xs r2) \<and>
    awakeTimeMean (feed xs r1) = awakeTimeMean (feed xs r2) \<and>
    awakeTimeM2 (feed xs r1) = awakeTimeM2 (feed xs r2)"
  using assms
proof (induction xs arbitrary: r1 r2)
  case Nil
  then show ?case by (simp add: feed_Nil)
next
  case (Cons x xs)
  have "awakeTime (r1\<lparr>awakeTime := x\<rparr>) = awakeTime (r2\<lparr>awakeTime := x\<rparr>)" by simp
  from updateStatistics_cong[OF _ _ _ this] Cons.prems
  have "numTimeSteps (updateStatistics (r1\<lparr>awakeTime := x\<rparr>)) =
        numTimeSteps (updateStatistics (r2\<lparr>awakeTime := x\<rparr>))"
    "awakeTimeMean (updateStatistics (r1\<lparr>awakeTime := x\<rparr>)) =
        awakeTimeMean (updateStatistics (r2\<lparr>awakeTime := x\<rparr>))"
    "awakeTimeM2 (updateStatistics (r1\<lparr>awakeTime := x\<rparr>)) =
        awakeTimeM2 (updateStatistics (r2\<lparr>awakeTime := x\<rparr>))"
    by simp_all
  from Cons.IH[OF this] show ?case
    by (simp add: feed_Cons)
qed

lemma sleeps_feed:
  assumes "sleeps cs r = Some r'"
  shows "numTimeSteps r' = numTimeSteps (feed (awake_times cs r) r) \<and>
    awakeTimeMean r' = awakeTimeMean (feed (awake_times cs r) r) \<and>
    awakeTimeM2 r' = awakeTimeM2 (feed (awake_times cs r) r)"
  using assms
proof (induction cs arbitrary: r)
  case Nil
  then show ?case by (simp add: feed_Nil)
next
  case (Cons c cs)
  from Cons.prems obtain r1 diags out where
    s: "sleep (fst c) (snd c) r = Some (r1, diags, out)" and rest: "sleeps cs r1 = Some r'"
    by (auto split: option.splits)
  let ?u = "updateStatistics (r\<lparr>awakeTime := awakeTime r1\<rparr>)"
  note st = sleep_statistics[OF s]
  have "numTimeSteps r1 = numTimeSteps ?u" "awakeTimeMean r1 = awakeTimeMean ?u"
    "awakeTimeM2 r1 = awakeTimeM2 ?u"
    using st(2-4) by (simp_all add: updateStatistics_fields)
  from feed_cong[OF this, of "awake_times cs r1"] Cons.IH[OF rest]
  show ?case
    by (simp add: s feed_Cons)
qed

lemma awake_times_finite:
  assumes "sleeps cs r = Some r'"
  shows "length (awake_times cs r) = length cs \<and>
    map Finite (map the_finite (awake_times cs r)) = awake_times cs r"
  using assms
proof (induction cs arbitrary: r)
  case Nil
  then show ?case by simp
next
  case (Cons c cs)
  from Cons.prems obtain r1 diags out where
    s: "sleep (fst c) (snd c) r = Some (r1, diags, out)" and rest: "sleeps cs r1 = Some r'"
    by (auto split: option.splits)
  from sleep_statistics(1)[OF s] Cons.IH[OF rest] show ?case
    by (simp add: s)
qed

lemma feed_direct:
  assumes "xs \<noteq> []" and "length xs < 2 ^ 32"
  shows "awakeTimeMean (feed (map Finite xs) (reset now r)) = Finite (arithmetic_mean xs)"
    and "getAwakeTimeMean (feed (map Finite xs) (reset now r)) = Finite (arithmetic_mean xs)"
    and "2 \<le> length xs \<Longrightarrow>
       ddiv (awakeTimeM2 (feed (map Finite xs) (reset now r)))
            (double_of_uint (numTimeSteps (feed (map Finite xs) (reset now r)) - 1))
         = Finite (sample_variance xs)"
    and "2 \<le> length xs \<Longrightarrow>
       getAwakeTimeVar (feed (map Finite xs) (reset now r)) = Finite (sample_variance xs)"
proof -
  let ?r = "feed (map Finite xs) (reset now r)"
  from feed_statistics[OF reset_statistics(1-3) assms(2)] have
    n: "numTimeSteps ?r = of_nat (length xs)" and
    m: "awakeTimeMean ?r = Finite (arithmetic_mean xs)" and
    q: "awakeTimeM2 ?r =
       Finite ((\<Sum>x\<leftarrow>xs. x\<^sup>2) - real (length xs) * (arithmetic_mean xs)\<^sup>2)"
    by simp_all
  show "awakeTimeMean ?r = Finite (arithmetic_mean xs)" by (rule m)
  have u: "unat (numTimeSteps ?r) = length xs"
    using assms(2) by (simp add: n unat_of_nat take_bit_nat_eq_self)
  then have "numTimeSteps ?r \<noteq> 0"
    using assms(1) by auto
  then show "getAwakeTimeMean ?r = Finite (arithmetic_mean xs)"
    by (simp add: getAwakeTimeMean_def m)
  show v: "getAwakeTimeVar ?r = Finite (sample_variance xs)" if "2 \<le> length xs"
    using getAwakeTimeVar_of_nat[OF n that assms(2) q]
    by (simp add: sample_variance_def sum_squared_deviations_mean)
  show "ddiv (awakeTimeM2 ?r) (double_of_uint (numTimeSteps ?r - 1)) = Finite (sample_variance xs)"
    if "2 \<le> length xs"
  proof -
    have "\<not> numTimeSteps ?r \<le> 1"
      using that by (simp add: word_le_nat_alt u)
    with v[OF that] show ?thesis
      by (simp add: getAwakeTimeVar_def)
  qed
qed

subsection \<open>The millisecond clock\<close>

lemma to_ns_tick: "to_ns (tick i) = int i * 1000000"
proof -
  have "int i = int (i div 1000) * 1000 + int (i mod 1000)"
    by (metis div_mult_mod_eq of_nat_add of_nat_mult of_nat_numeral)
  then show ?thesis
    by (simp add: to_ns_def tick_def NSecPerSec_def)
qed

lemma normalized_tick: "normalized (tick i)"
proof -
  have "i mod 1000 < 1000" by simp
  then have "int (i mod 1000) < 1000" by linarith
  then show ?thesis
    by (simp add: normalized_def tick_def NSecPerSec_def)
qed

lemma timespec_eqI:
  assumes "normalized a" "normalized b" "to_ns a = to_ns b"
  shows "a = b"
proof -
  have "tv_nsec a = to_ns a mod NSecPerSec" "tv_nsec b = to_ns b mod NSecPerSec"
    using assms(1,2) by (simp_all add: to_ns_def normalized_def)
  moreover have "tv_sec a = to_ns a div NSecPerSec" "tv_sec b = to_ns b div NSecPerSec"
    using assms(1,2) by (simp_all add: to_ns_def normalized_def NSecPerSec_def)
  ultimately show ?thesis
    using assms(3) by (simp add: timespec.equality)
qed

lemma in_long_small: "\<bar>x\<bar> < 2 ^ 62 \<Longrightarrow> in_long x"
  unfolding in_long_def by simp linarith

lemma tick_bounds:
  assumes "i < 2 ^ 40"
  shows "0 \<le> tv_sec (tick i)" "tv_sec (tick i) < 2 ^ 40"
    "0 \<le> tv_nsec (tick i)" "tv_nsec (tick i) < 1000000000"
proof -
  have "i div 1000 \<le> i" by simp
  then have "i div 1000 < 2 ^ 40" using assms by linarith
  then have "int (i div 1000) < 2 ^ 40" by (metis of_nat_less_iff of_nat_numeral of_nat_power)
  then show "tv_sec (tick i) < 2 ^ 40" by (simp add: tick_def)
  show "0 \<le> tv_sec (tick i)" "0 \<le> tv_nsec (tick i)" by (simp_all add: tick_def)
  show "tv_nsec (tick i) < 1000000000"
    using normalized_tick[of i] by (simp add: normalized_def NSecPerSec_def)
qed

lemma step_ns_milli: "step_ns (Finite (1 / 1000)) = Finite 1000000"
  using round64_of_int[of 1000000] by (simp add: step_ns_Finite)

lemma next_tick:
  assumes "i < 2 ^ 40"
  shows "nextStepTime (Finite (1 / 1000)) (tick i) = Some (tick (Suc i))"
proof -
  note b = tick_bounds[OF assms]
  have r: "in_range (tick i)"
    using b(1,2) normalized_tick[of i] by (simp add: in_range_def)
  from nextStepTime_bounded[OF _ _ r, of "1 / 1000"] obtain t where
    t: "nextStepTime (Finite (1 / 1000)) (tick i) = Some t" and n: "normalized t"
    by auto
  from nextStepTime_advance[OF t _ _ normalized_tick]
  have "to_ns t = to_ns (tick (Suc i))"
    by (simp add: step_ns_milli to_ns_tick)
  with n have "t = tick (Suc i)"
    using normalized_tick by (intro timespec_eqI)
  with t show ?thesis by simp
qed

lemma sleep_tick:
  assumes "stepTime r = tick i" "sleepEndTime r = tick i" "timeStep r = Finite (1 / 1000)"
    and "i < 2 ^ 40 - 1"
  obtains r' diags where
    "sleep (tick (Suc i)) (tick (Suc i)) r =
       Some (r', diags, SleptUntil (clockId r) (tick (Suc i)))"
    "stepTime r' = tick (Suc i)" "sleepEndTime r' = tick (Suc i)"
proof -
  have i: "i < 2 ^ 40" "Suc i < 2 ^ 40" using assms(4) by simp_all
  note b = tick_bounds[OF i(1)] and b' = tick_bounds[OF i(2)]
  have "in_long (tv_sec (tick (Suc i)) - tv_sec (tick i))"
    "in_long (tv_nsec (tick (Suc i)) - tv_nsec (tick i))"
    using b b' by (auto intro!: in_long_small)
  from GetDuration_defined[OF this]
  obtain a where a: "GetDuration (sleepEndTime r) (tick (Suc i)) = Some a"
    by (simp add: assms(2))
  have n: "nextStepTime (timeStep r) (stepTime r) = Some (tick (Suc i))"
    using next_tick[OF i(1)] by (simp add: assms)
  have d: "GetDuration (tick (Suc i)) (tick (Suc i)) = Some (Finite 0)"
    using GetDuration_defined[of "tick (Suc i)" "tick (Suc i)"] by (simp add: in_long_def)
  have s: "sleep (tick (Suc i)) (tick (Suc i)) r =
      Some (fst (policy (tick (Suc i)) (tick (Suc i)) (Finite 0) (fst (measured (tick (Suc i)) a r))),
            snd (measured (tick (Suc i)) a r), SleptUntil (clockId r) (tick (Suc i)))"
    by (simp add: sleep_unfold a n d policy_schedule measured_fields)
  show ?thesis
    by (rule that[OF s]) (simp_all add: policy_schedule)
qed

lemma sleeps_ticks:
  assumes "stepTime r = tick i" "sleepEndTime r = tick i" "timeStep r = Finite (1 / 1000)"
    and "i + n < 2 ^ 40"
  shows "\<exists>r'. sleeps (ticks i n) r = Some r' \<and> numTimeSteps r' = numTimeSteps r + of_nat n"
  using assms
proof (induction n arbitrary: i r)
  case 0
  then show ?case by simp
next
  case (Suc n)
  have "i < 2 ^ 40 - 1" using Suc.prems(4) by simp
  with Suc.prems(1-3) obtain r1 diags where
    s: "sleep (tick (Suc i)) (tick (Suc i)) r =
      Some (r1, diags, SleptUntil (clockId r) (tick (Suc i)))" and
    st: "stepTime r1 = tick (Suc i)" "sleepEndTime r1 = tick (Suc i)"
    by (rule sleep_tick)
  have ts: "timeStep r1 = Finite (1 / 1000)"
    using sleep_config(2)[OF s] Suc.prems(3) by simp
  have "Suc i + n < 2 ^ 40" using Suc.prems(4) by simp
  from Suc.IH[OF st ts this] obtain r' where
    r': "sleeps (ticks (Suc i) n) r1 = Some r'" "numTimeSteps r' = numTimeSteps r1 + of_nat n"
    by blast
  have "numTimeSteps r1 = numTimeSteps r + 1"
    using sleep_statistics(2)[OF s] .
  with r' show ?case
    by (simp add: s)
qed

lemma length_ticks: "length (ticks k n) = n"
  by (induction n arbitrary: k) simp_all

subsection \<open>When a call has a result\<close>

text \<open>
  A call of \<open>sleep\<close> has a result, that is, none of its signed operations leaves the
  64-bit range, whenever the time step is valid and at most 9223372035 seconds and the
  stored and the sampled timestamps are in range. It has none when the time step is
  9223372037 seconds or more.
\<close>

lemma in_range_diff:
  assumes "in_range a" and "in_range b"
  shows "in_long (tv_sec b - tv_sec a)" and "in_long (tv_nsec b - tv_nsec a)"
  using assms unfolding in_range_def normalized_def NSecPerSec_def in_long_def
  by auto

lemma in_long_nsec_diff:
  "0 \<le> a \<Longrightarrow> a < 1000000000 \<Longrightarrow> 0 \<le> b \<Longrightarrow> b < 1000000000 \<Longrightarrow> in_long (a - b)"
  unfolding in_long_def by simp

lemma in_long_sec_diff:
  "\<bar>a\<bar> < 2 ^ 61 \<Longrightarrow> a \<le> c \<Longrightarrow> c \<le> a + 9223372036 \<Longrightarrow> \<bar>b\<bar> < 2 ^ 61 \<Longrightarrow> in_long (c - b)"
  unfolding in_long_def by simp linarith

lemma sleep_defined:
  assumes "timeStep r = Finite x" and "0 \<le> x" and "x \<le> 9223372035"
    and "in_range (sleepEndTime r)" and "in_range (stepTime r)"
    and "in_range now1" and "in_range now2"
  shows "sleep now1 now2 r \<noteq> None"
proof -
  have a: "GetDuration (sleepEndTime r) now1 \<noteq> None"
    using GetDuration_defined[OF in_range_diff[OF assms(4,6)]] by simp
  from nextStepTime_bounded[OF assms(2,3,5)] obtain t where
    t: "nextStepTime (timeStep r) (stepTime r) = Some t" and n: "normalized t" and
    b: "tv_sec (stepTime r) \<le> tv_sec t" "tv_sec t \<le> tv_sec (stepTime r) + 9223372036"
    unfolding assms(1) by blast
  have st: "\<bar>tv_sec (stepTime r)\<bar> < 2 ^ 61"
    using assms(5) by (simp add: in_range_def)
  have m: "0 \<le> tv_nsec t" "tv_nsec t < 1000000000"
    using n by (simp_all add: normalized_def NSecPerSec_def)
  have n2: "0 \<le> tv_nsec now2" "tv_nsec now2 < 1000000000" "\<bar>tv_sec now2\<bar> < 2 ^ 61"
    using assms(7) by (simp_all add: in_range_def normalized_def NSecPerSec_def)
  have "in_long (tv_sec t - tv_sec now2)" "in_long (tv_nsec t - tv_nsec now2)"
    using in_long_sec_diff[OF st b n2(3)] in_long_nsec_diff[OF m n2(1,2)]
    by simp_all
  from GetDuration_defined[OF this] have d: "GetDuration now2 t \<noteq> None"
    by simp
  from a t d show ?thesis
    by (auto simp: sleep_unfold)
qed

lemma sleep_overflow:
  assumes "timeStep r = Finite x" and "9223372037 \<le> x" and "normalized (stepTime r)"
  shows "sleep now1 now2 r = None"
  using nextStepTime_overflow[OF assms(2,3)]
  by (simp add: sleep_unfold assms(1) split: option.split)

subsection \<open>The examples\<close>

lemma next_1024:
  assumes "normalized st" and "\<bar>tv_sec st\<bar> < 2 ^ 61"
  shows "nextStepTime (Finite (1 / 1024)) st =
     Some \<lparr>tv_sec = tv_sec st + (tv_nsec st + 976562) div NSecPerSec,
           tv_nsec = (tv_nsec st + 976562) mod NSecPerSec\<rparr>"
proof -
  have "tv_nsec st < 1000000000"
    using assms(1) by (simp add: normalized_def NSecPerSec_def)
  then have "tv_nsec st * 2 ^ 1 + 1953125 < 2 ^ 53" by simp
  from nextStepTime_dyadic[OF _ _ _ assms(1) this assms(2), of "1 / 1024"]
  show ?thesis by simp
qed

lemma next_4:
  assumes "normalized st" and "\<bar>tv_sec st\<bar> < 2 ^ 61"
  shows "nextStepTime (Finite (1 / 4)) st =
     Some \<lparr>tv_sec = tv_sec st + (tv_nsec st + 250000000) div NSecPerSec,
           tv_nsec = (tv_nsec st + 250000000) mod NSecPerSec\<rparr>"
proof -
  have "tv_nsec st < 1000000000"
    using assms(1) by (simp add: normalized_def NSecPerSec_def)
  then have "tv_nsec st * 2 ^ 0 + 250000000 < 2 ^ 53" by simp
  from nextStepTime_dyadic[OF _ _ _ assms(1) this assms(2), of "1 / 4"]
  show ?thesis by simp
qed

lemma next_0:
  assumes "normalized st" and "\<bar>tv_sec st\<bar> < 2 ^ 61"
  shows "nextStepTime (Finite 0) st = Some st"
proof -
  have n: "0 \<le> tv_nsec st" "tv_nsec st < 1000000000"
    using assms(1) by (simp_all add: normalized_def NSecPerSec_def)
  then have "tv_nsec st * 2 ^ 0 + 0 < 2 ^ 53" by simp
  from nextStepTime_dyadic[OF _ _ _ assms(1) this assms(2), of 0]
  show ?thesis using n by (simp add: NSecPerSec_def)
qed

lemmas eval_next = next_1024 next_4 next_0 normalized_def

lemma sleep_overrun:
  "sleep \<lparr>tv_sec = 102, tv_nsec = 0\<rparr> \<lparr>tv_sec = 102, tv_nsec = 100\<rparr> loop1024 =
     Some (fst overrun_result, fst (snd overrun_result), snd (snd overrun_result))"
  by (simp add: eval_defs eval_next overrun_result_def)


lemma sleep_slip:
  "sleep \<lparr>tv_sec = 5, tv_nsec = 250000000\<rparr> \<lparr>tv_sec = 5, tv_nsec = 250001000\<rparr> loop4 =
     Some (fst slip_result, fst (snd slip_result), snd (snd slip_result))"
  by (simp add: eval_defs eval_next slip_result_def)

lemma sleeps_trace4:
  "sleeps trace4 (reset \<lparr>tv_sec = 5, tv_nsec = 0\<rparr> loop4) = Some trace4_result"
  by (simp add: eval_defs eval_next trace4_def trace4_result_def)

lemma sleep_probe:
  "sleep \<lparr>tv_sec = 5, tv_nsec = 250000000\<rparr> \<lparr>tv_sec = 5, tv_nsec = 250001000\<rparr> probe =
     Some (fst probe_result, fst (snd probe_result), snd (snd probe_result))"
  by (simp add: eval_defs eval_next probe_result_def)


section \<open>The properties\<close>

text \<open>
  The clock is the environment of a rate: the theorems take the samples a call reads as
  arguments. A call of \<open>sleep\<close> has a result when none of its signed operations leaves
  the 64-bit range; by \<open>sleep_defined\<close> these are all the calls with timestamps in range
  and a valid time step of up to 9223372035 seconds, and by \<open>sleep_overflow\<close> none of the
  calls with a time step of 9223372037 seconds or more.
\<close>

text \<open>
  C1. The claim that the step time is within the clock resolution of the reset instant
  plus \<open>N\<close> time steps fails for a time step that is not a whole number of nanoseconds:
  the conversion to \<open>long\<close> drops the fraction of a nanosecond of every sum. The 1024 Hz
  loop (976562.5 ns, a double) is 2 ns behind after four cycles.
\<close>

theorem drift_counterexample:
  "timeStep loop1024 = Finite (1 / 1024) \<and> length trace1024 = 4 \<and>
   map_option stepTime (sleeps trace1024 (reset \<lparr>tv_sec = 100, tv_nsec = 999999000\<rparr> loop1024)) =
     Some \<lparr>tv_sec = 101, tv_nsec = 3905248\<rparr> \<and>
   schedule_lag \<lparr>tv_sec = 100, tv_nsec = 999999000\<rparr> (1 / 1024) 4
     \<lparr>tv_sec = 101, tv_nsec = 3905248\<rparr> = 2"
  by (simp add: eval_defs eval_next trace1024_def schedule_lag_def to_ns_def)

text \<open>
  C1, as the code has it. After \<open>reset\<close> at the normalized clock sample \<open>now\<close> and \<open>N\<close>
  consecutive calls of \<open>sleep\<close> that all have a result, with a valid time step of \<open>x\<close>
  seconds and with the rate enforced or every call on schedule, the step time is \<open>N\<close>
  advances from the reset instant, whatever the clock read in between, and is in normal
  form. Let \<open>p\<close> be the double product \<open>timeStep_ * NSecPerSec_\<close>; it is finite and
  differs from \<open>x * 10^9\<close> by the rounding error of one multiplication at most. Every
  advance adds \<open>p\<close> to the nanoseconds, rounds the sum to a double and drops its
  fraction, so the step time differs from the reset instant plus \<open>N * p\<close> nanoseconds by
  less than a nanosecond and a relative \<open>2^-53\<close> of the sum for every call. For a
  time step of at most nine million seconds the sums are below \<open>2^53\<close>, and the step time
  lies between the reset instant plus \<open>N\<close> times \<open>p\<close> rounded down and the reset instant
  plus \<open>N\<close> times \<open>p\<close> rounded up to whole nanoseconds: it is the reset instant plus
  \<open>N * p\<close> exactly when \<open>p\<close> is a whole number of nanoseconds, and is then off the reset
  instant plus \<open>N\<close> time steps by \<open>N\<close> rounding errors at most; otherwise it can be off
  by a further nanosecond for every call.
\<close>

theorem stepTime_accumulates:
  assumes "sleeps cs (reset now r) = Some r'" and "timeStep r = Finite x" and "0 \<le> x"
    and "normalized now" and "enforceRate r \<or> on_schedule cs (reset now r)"
  shows "advances (length cs) (Finite x) now = Some (stepTime r') \<and>
    normalized (stepTime r') \<and>
    (cs \<noteq> [] \<longrightarrow>
       isfinite (step_ns (Finite x)) \<and>
       \<bar>the_finite (step_ns (Finite x)) - x * 1000000000\<bar>
         \<le> x * 1000000000 / 2 ^ 53 + 1 / 2 ^ 1075) \<and>
    \<bar>real_of_int (to_ns (stepTime r') - to_ns now) -
       real (length cs) * the_finite (step_ns (Finite x))\<bar>
      \<le> real (length cs) *
         (1 + (1000000000 + the_finite (step_ns (Finite x))) / 2 ^ 53 + 1 / 2 ^ 1075) \<and>
    (x \<le> 9000000 \<longrightarrow>
       to_ns now + int (length cs) * \<lfloor>the_finite (step_ns (Finite x))\<rfloor>
         \<le> to_ns (stepTime r') \<and>
       to_ns (stepTime r')
         \<le> to_ns now + int (length cs) * \<lceil>the_finite (step_ns (Finite x))\<rceil> \<and>
       \<bar>schedule_lag now x (length cs) (stepTime r')\<bar>
         \<le> real (length cs) *
            (x * 1000000000 / 2 ^ 53 + 1 / 2 ^ 1075 +
             real_of_int (\<lceil>the_finite (step_ns (Finite x))\<rceil> -
                          \<lfloor>the_finite (step_ns (Finite x))\<rfloor>)))"
proof -
  have r0: "timeStep (reset now r) = Finite x" "stepTime (reset now r) = now"
    "enforceRate (reset now r) = enforceRate r"
    using assms(2) by (simp_all add: reset_def)
  have "enforceRate (reset now r) \<or> on_schedule cs (reset now r)"
    using assms(5) by (simp add: r0)
  from sleeps_advances[OF assms(1) this]
  have adv: "advances (length cs) (Finite x) now = Some (stepTime r')"
    by (simp add: r0)
  note err = advances_error[OF adv assms(3,4)]
  have fin: "isfinite (step_ns (Finite x)) \<and>
       \<bar>the_finite (step_ns (Finite x)) - x * 1000000000\<bar>
         \<le> x * 1000000000 / 2 ^ 53 + 1 / 2 ^ 1075" if "cs \<noteq> []"
  proof -
    from that obtain n where "length cs = Suc n"
      by (cases cs) auto
    with adv obtain u where "nextStepTime (Finite x) now = Some u"
      by (auto split: option.splits)
    from this assms(3,4) obtain p s where p: "step_ns (Finite x) = Finite p"
      by (rule nextStepTime_SomeD)
    from step_ns_error[OF p assms(3)] show ?thesis
      by (simp add: p)
  qed
  have sharp: "to_ns now + int (length cs) * \<lfloor>the_finite (step_ns (Finite x))\<rfloor>
         \<le> to_ns (stepTime r') \<and>
       to_ns (stepTime r')
         \<le> to_ns now + int (length cs) * \<lceil>the_finite (step_ns (Finite x))\<rceil> \<and>
       \<bar>schedule_lag now x (length cs) (stepTime r')\<bar>
         \<le> real (length cs) *
            (x * 1000000000 / 2 ^ 53 + 1 / 2 ^ 1075 +
             real_of_int (\<lceil>the_finite (step_ns (Finite x))\<rceil> -
                          \<lfloor>the_finite (step_ns (Finite x))\<rfloor>))" if small: "x \<le> 9000000"
  proof -
    from step_ns_small[OF assms(3) small] obtain p where
      p: "step_ns (Finite x) = Finite p" by blast
    note e = step_ns_error[OF p assms(3)]
    from advances_bounds[OF adv assms(3) small assms(4)]
    have lo: "to_ns now + int (length cs) * \<lfloor>p\<rfloor> \<le> to_ns (stepTime r')"
      and hi: "to_ns (stepTime r') \<le> to_ns now + int (length cs) * \<lceil>p\<rceil>"
      by (simp_all add: p)
    define N where "N = real (length cs)"
    define y where "y = x * 1000000000"
    define t where "t = real_of_int (to_ns (stepTime r')) - real_of_int (to_ns now)"
    have N0: "0 \<le> N" by (simp add: N_def)
    have "real_of_int (to_ns now + int (length cs) * \<lfloor>p\<rfloor>) \<le> real_of_int (to_ns (stepTime r'))"
      using lo by (simp only: of_int_le_iff)
    then have tl: "N * real_of_int \<lfloor>p\<rfloor> \<le> t"
      by (simp add: t_def N_def)
    have "real_of_int (to_ns (stepTime r')) \<le> real_of_int (to_ns now + int (length cs) * \<lceil>p\<rceil>)"
      using hi by (simp only: of_int_le_iff)
    then have th: "t \<le> N * real_of_int \<lceil>p\<rceil>"
      by (simp add: t_def N_def)
    have lag: "schedule_lag now x (length cs) (stepTime r') = N * y - t"
      by (simp add: schedule_lag_def N_def y_def t_def)
    define w where "w = real_of_int (\<lceil>p\<rceil> - \<lfloor>p\<rfloor>)"
    define eps where "eps = x * 1000000000 / 2 ^ 53 + 1 / 2 ^ 1075"
    have e': "\<bar>p - y\<bar> \<le> eps" using e by (simp add: y_def eps_def)
    have fc: "real_of_int \<lfloor>p\<rfloor> \<le> p" "p \<le> real_of_int \<lceil>p\<rceil>"
      by linarith+
    have w: "w = real_of_int \<lceil>p\<rceil> - real_of_int \<lfloor>p\<rfloor>"
      by (simp add: w_def)
    have a1: "y - real_of_int \<lfloor>p\<rfloor> \<le> eps + w"
      using e' fc unfolding w by linarith
    have a2: "- (eps + w) \<le> y - real_of_int \<lceil>p\<rceil>"
      using e' fc unfolding w by linarith
    have up: "N * y - t \<le> N * (eps + w)"
    proof -
      have "N * y - t \<le> N * y - N * real_of_int \<lfloor>p\<rfloor>" using tl by simp
      also have "\<dots> = N * (y - real_of_int \<lfloor>p\<rfloor>)" by (simp add: algebra_simps)
      also have "\<dots> \<le> N * (eps + w)"
        using a1 N0 by (rule mult_left_mono)
      finally show ?thesis .
    qed
    have dn: "- (N * (eps + w)) \<le> N * y - t"
    proof -
      have "- (N * (eps + w)) = N * (- (eps + w))" by (simp only: mult_minus_right)
      also have "\<dots> \<le> N * (y - real_of_int \<lceil>p\<rceil>)"
        using a2 N0 by (rule mult_left_mono)
      also have "\<dots> = N * y - N * real_of_int \<lceil>p\<rceil>" by (simp add: algebra_simps)
      also have "\<dots> \<le> N * y - t" using th by simp
      finally show ?thesis .
    qed
    have "\<bar>schedule_lag now x (length cs) (stepTime r')\<bar> \<le> N * (eps + w)"
      unfolding lag using up dn by (simp add: abs_le_iff)
    then have l: "\<bar>schedule_lag now x (length cs) (stepTime r')\<bar>
        \<le> real (length cs) *
           (x * 1000000000 / 2 ^ 53 + 1 / 2 ^ 1075 + real_of_int (\<lceil>p\<rceil> - \<lfloor>p\<rfloor>))"
      unfolding N_def eps_def w_def .
    show ?thesis
      unfolding p the_finite.simps using lo hi l by simp
  qed
  from adv err fin sharp show ?thesis by blast
qed

theorem stepTime_accumulates_witness:
  "sleeps trace4 (reset \<lparr>tv_sec = 5, tv_nsec = 0\<rparr> loop4) = Some trace4_result \<and>
   timeStep loop4 = Finite (1 / 4) \<and> normalized \<lparr>tv_sec = 5, tv_nsec = 0\<rparr> \<and>
   \<not> enforceRate loop4 \<and> on_schedule trace4 (reset \<lparr>tv_sec = 5, tv_nsec = 0\<rparr> loop4) \<and>
   length trace4 = 2 \<and> trace4 \<noteq> [] \<and> (1 / 4 :: real) \<le> 9000000 \<and>
   step_ns (Finite (1 / 4)) = Finite 250000000 \<and>
   advances 2 (Finite (1 / 4)) \<lparr>tv_sec = 5, tv_nsec = 0\<rparr> = Some (stepTime trace4_result) \<and>
   stepTime trace4_result = \<lparr>tv_sec = 5, tv_nsec = 500000000\<rparr> \<and>
   to_ns (stepTime trace4_result) = to_ns \<lparr>tv_sec = 5, tv_nsec = 0\<rparr> + 2 * 250000000 \<and>
   normalized (stepTime trace4_result) \<and>
   \<bar>schedule_lag \<lparr>tv_sec = 5, tv_nsec = 0\<rparr> (1 / 4) 2 (stepTime trace4_result)\<bar>
     \<le> 2 * (250000000 / 2 ^ 53 + 1 / 2 ^ 1075)"
proof -
  note p = step_ns_quarter
  have h: "timeStep loop4 = Finite (1 / 4)" "(0::real) \<le> 1 / 4"
    "normalized \<lparr>tv_sec = 5, tv_nsec = 0\<rparr>" "\<not> enforceRate loop4" "length trace4 = 2"
    "trace4 \<noteq> []" "(1 / 4 :: real) \<le> 9000000"
    "stepTime trace4_result = \<lparr>tv_sec = 5, tv_nsec = 500000000\<rparr>"
    by (simp_all add: eval_defs normalized_def trace4_def trace4_result_def)
  have o: "on_schedule trace4 (reset \<lparr>tv_sec = 5, tv_nsec = 0\<rparr> loop4)"
    by (simp add: eval_defs eval_next trace4_def)
  then have q: "enforceRate loop4 \<or> on_schedule trace4 (reset \<lparr>tv_sec = 5, tv_nsec = 0\<rparr> loop4)"
    by simp
  from stepTime_accumulates[OF sleeps_trace4 h(1,2,3) q] sleeps_trace4 h o p
  show ?thesis
    by simp
qed





text \<open>
  C4. The claim that every setter rejects an infinite argument fails for the thresholds:
  \<open>MaxTimeStepIsValid\<close> has no \<open>isinf\<close> test, and plus infinity is stored.
\<close>

theorem setter_infinite_threshold_counterexample:
  "isinf PInf \<and>
   setMaxTimeStepWarning PInf loop1024 = (loop1024\<lparr>maxTimeStepWarning := PInf\<rparr>, []) \<and>
   getMaxTimeStepWarning loop1024 = Finite (1 / 1024) \<and>
   getMaxTimeStepWarning (fst (setMaxTimeStepWarning PInf loop1024)) = PInf"
  by (simp add: eval_defs getMaxTimeStepWarning_def)

text \<open>
  C4, as the code has it. \<open>setTimeStep\<close> rejects a NaN, an infinite and a negative
  argument; the two threshold setters reject a NaN and a negative argument (minus infinity
  is negative). A rejecting setter returns the state as it was and writes one error
  diagnostic; the setters are total, they have no other way out. Every other argument is
  stored without a diagnostic, plus infinity as a threshold among them. Setting the time
  step to \<open>-1\<close>, NaN or plus infinity leaves \<open>getTimeStep\<close> as it was.
\<close>

theorem setters_reject_invalid:
  "(if isnan ts \<or> isinf ts \<or> dless ts (Finite 0)
    then fst (setTimeStep ts r) = r \<and> map fst (snd (setTimeStep ts r)) = [Error]
    else setTimeStep ts r = (r\<lparr>timeStep := ts\<rparr>, [])) \<and>
   (if isnan m \<or> dless m (Finite 0)
    then fst (setMaxTimeStepWarning m r) = r \<and>
         map fst (snd (setMaxTimeStepWarning m r)) = [Error] \<and>
         fst (setMaxTimeStepError m r) = r \<and>
         map fst (snd (setMaxTimeStepError m r)) = [Error]
    else setMaxTimeStepWarning m r = (r\<lparr>maxTimeStepWarning := m\<rparr>, []) \<and>
         setMaxTimeStepError m r = (r\<lparr>maxTimeStepError := m\<rparr>, [])) \<and>
   setMaxTimeStepWarning PInf r = (r\<lparr>maxTimeStepWarning := PInf\<rparr>, []) \<and>
   setMaxTimeStepError PInf r = (r\<lparr>maxTimeStepError := PInf\<rparr>, []) \<and>
   getTimeStep (fst (setTimeStep (Finite (- 1)) r)) = getTimeStep r \<and>
   getTimeStep (fst (setTimeStep NaN r)) = getTimeStep r \<and>
   getTimeStep (fst (setTimeStep PInf r)) = getTimeStep r"
proof -
  have ts: "TimeStepIsValid ts \<longleftrightarrow> \<not> (isnan ts \<or> isinf ts \<or> dless ts (Finite 0))"
    by (cases ts) (auto simp: TimeStepIsValid_def)
  have m: "MaxTimeStepIsValid m \<longleftrightarrow> \<not> (isnan m \<or> dless m (Finite 0))"
    by (cases m) (auto simp: MaxTimeStepIsValid_def)
  have "\<not> TimeStepIsValid (Finite (- 1))" "\<not> TimeStepIsValid NaN" "\<not> TimeStepIsValid PInf"
    "MaxTimeStepIsValid PInf"
    by (simp_all add: TimeStepIsValid_def MaxTimeStepIsValid_def)
  then show ?thesis
    using ts m
    by (simp add: setTimeStep_def setMaxTimeStepWarning_def setMaxTimeStepError_def
        getTimeStep_def)
qed

theorem setters_reject_invalid_witness:
  "dless (Finite (- 1)) (Finite 0) \<and> isnan NaN \<and>
   fst (setTimeStep (Finite (- 1)) loop4) = loop4 \<and>
   map fst (snd (setTimeStep (Finite (- 1)) loop4)) = [Error] \<and>
   fst (setMaxTimeStepWarning NaN loop4) = loop4 \<and>
   map fst (snd (setMaxTimeStepWarning NaN loop4)) = [Error] \<and>
   fst (setMaxTimeStepError NaN loop4) = loop4 \<and>
   map fst (snd (setMaxTimeStepError NaN loop4)) = [Error] \<and>
   getTimeStep (fst (setTimeStep PInf loop4)) = getTimeStep loop4"
  using setters_reject_invalid[of "Finite (- 1)" loop4 NaN]
  by simp

text \<open>
  C5. The claim that the incremental statistics match the direct ones for every sample
  sequence fails at the 4294967296th sample: the cycle count, an \<open>unsigned int\<close>, wraps
  to zero, and the update divides by it. For 4294967296 samples of \<open>1/1024\<close> of a second
  the direct mean is \<open>1/1024\<close>, and the incremental mean is NaN.
\<close>

theorem welford_wraparound_counterexample:
  "length (replicate (2 ^ 32) (1 / 1024 :: real)) = 2 ^ 32 \<and>
   arithmetic_mean (replicate (2 ^ 32) (1 / 1024)) = 1 / 1024 \<and>
   awakeTimeMean (feed64 (map Finite (replicate (2 ^ 32) (1 / 1024)))
     (reset \<lparr>tv_sec = 5, tv_nsec = 0\<rparr> loop4)) = NaN"
  using feed64_wraps[of "1 / 1024" "\<lparr>tv_sec = 5, tv_nsec = 0\<rparr>" loop4]
    round64_dyadic[of "1 / 1024" 1 10]
    mean_replicate[of "2 ^ 32" "1 / 1024 :: real"]
  by simp

text \<open>
  C5, as the code has it. Let \<open>N\<close> samples, at least one and fewer than 4294967296, each
  of magnitude at most \<open>B\<close> with \<open>2^-500 \<le> B \<le> 2^400\<close>, be fed after a \<open>reset\<close> through
  the statistics update of \<open>sleep\<close>, every operation rounded to binary64. Then the count
  is \<open>N\<close>; \<open>getAwakeTimeMean\<close> returns a finite number within \<open>20 * N * B / 2^53\<close> of the
  arithmetic mean of the samples; and from two samples on the variance accessor returns
  a finite number within \<open>400 * N * B^2 / 2^53\<close> of their unbiased sample variance. The
  mean and the variance computed directly are the exact ones.
\<close>

theorem welford_matches_direct:
  fixes B :: real
  assumes "\<forall>x\<in>set xs. \<bar>x\<bar> \<le> B" and "1 / 2 ^ 500 \<le> B" and "B \<le> 2 ^ 400"
    and "xs \<noteq> []" and "length xs < 2 ^ 32"
  shows "numTimeSteps (feed64 (map Finite xs) (reset now r)) = of_nat (length xs) \<and>
     (\<exists>m. getAwakeTimeMean (feed64 (map Finite xs) (reset now r)) = Finite m \<and>
          \<bar>m - arithmetic_mean xs\<bar> \<le> 20 * real (length xs) * B / 2 ^ 53) \<and>
     (2 \<le> length xs \<longrightarrow>
        (\<exists>v. getAwakeTimeVar64 (feed64 (map Finite xs) (reset now r)) = Finite v \<and>
             \<bar>v - sample_variance xs\<bar> \<le> 400 * real (length xs) * B\<^sup>2 / 2 ^ 53))"
  using feed64_direct[OF assms] by blast

theorem welford_matches_direct_witness:
  "set [0, 1, 1 :: real] = {0, 1} \<and> \<bar>0 :: real\<bar> \<le> 1 \<and> \<bar>1 :: real\<bar> \<le> 1 \<and>
   1 / 2 ^ 500 \<le> (1 :: real) \<and> (1 :: real) \<le> 2 ^ 400 \<and>
   [0, 1, 1 :: real] \<noteq> [] \<and> length [0, 1, 1 :: real] < 2 ^ 32 \<and> 2 \<le> length [0, 1, 1 :: real] \<and>
   numTimeSteps (feed64 (map Finite [0, 1, 1]) (reset \<lparr>tv_sec = 5, tv_nsec = 0\<rparr> loop4)) = 3 \<and>
   getAwakeTimeMean (feed64 (map Finite [0, 1, 1]) (reset \<lparr>tv_sec = 5, tv_nsec = 0\<rparr> loop4))
     = Finite (6004799503160661 / 2 ^ 53) \<and>
   arithmetic_mean [0, 1, 1] = 2 / 3 \<and>
   \<bar>6004799503160661 / 2 ^ 53 - 2 / 3 :: real\<bar> = 1 / (3 * 2 ^ 53) \<and>
   getAwakeTimeVar64 (feed64 (map Finite [0, 1, 1]) (reset \<lparr>tv_sec = 5, tv_nsec = 0\<rparr> loop4))
     = Finite (3002399751580331 / 2 ^ 53) \<and>
   sample_variance [0, 1, 1] = 1 / 3 \<and>
   \<bar>3002399751580331 / 2 ^ 53 - 1 / 3 :: real\<bar> = 1 / (3 * 2 ^ 53) \<and>
   (\<exists>m. getAwakeTimeMean (feed64 (map Finite [0, 1, 1]) (reset \<lparr>tv_sec = 5, tv_nsec = 0\<rparr> loop4))
          = Finite m \<and>
        \<bar>m - arithmetic_mean [0, 1, 1]\<bar> \<le> 20 * real (length [0, 1, 1 :: real]) * 1 / 2 ^ 53) \<and>
   (\<exists>v. getAwakeTimeVar64 (feed64 (map Finite [0, 1, 1]) (reset \<lparr>tv_sec = 5, tv_nsec = 0\<rparr> loop4))
          = Finite v \<and>
        \<bar>v - sample_variance [0, 1, 1]\<bar> \<le> 400 * real (length [0, 1, 1 :: real]) * 1\<^sup>2 / 2 ^ 53)"
proof -
  let ?R = "feed64 (map Finite [0, 1, 1]) (reset \<lparr>tv_sec = 5, tv_nsec = 0\<rparr> loop4)"
  note e = feed64_thirds[of "\<lparr>tv_sec = 5, tv_nsec = 0\<rparr>" loop4]
  have h: "\<forall>x\<in>set [0, 1, 1 :: real]. \<bar>x\<bar> \<le> 1" "1 / 2 ^ 500 \<le> (1 :: real)"
    "(1 :: real) \<le> 2 ^ 400" "[0, 1, 1 :: real] \<noteq> []" "length [0, 1, 1 :: real] < 2 ^ 32"
    by simp_all
  have two: "2 \<le> length [0, 1, 1 :: real]" by simp
  from welford_matches_direct[OF h, of "\<lparr>tv_sec = 5, tv_nsec = 0\<rparr>" loop4] two
  have t: "\<exists>m. getAwakeTimeMean ?R = Finite m \<and>
        \<bar>m - arithmetic_mean [0, 1, 1]\<bar> \<le> 20 * real (length [0, 1, 1 :: real]) * 1 / 2 ^ 53"
    "\<exists>v. getAwakeTimeVar64 ?R = Finite v \<and>
        \<bar>v - sample_variance [0, 1, 1]\<bar> \<le> 400 * real (length [0, 1, 1 :: real]) * 1\<^sup>2 / 2 ^ 53"
    by blast+
  have m: "arithmetic_mean [0, 1, 1] = 2 / 3"
    by (simp add: arithmetic_mean_def)
  have v: "sample_variance [0, 1, 1] = 1 / 3"
    unfolding sample_variance_def m by (simp add: power2_eq_square)
  have gm: "getAwakeTimeMean ?R = Finite (6004799503160661 / 2 ^ 53)"
    using e(1,2) by (simp add: getAwakeTimeMean_def)
  have d: "\<bar>6004799503160661 / 2 ^ 53 - 2 / 3 :: real\<bar> = 1 / (3 * 2 ^ 53)"
    "\<bar>3002399751580331 / 2 ^ 53 - 1 / 3 :: real\<bar> = 1 / (3 * 2 ^ 53)"
    by simp_all
  have s: "set [0, 1, 1 :: real] = {0, 1}" "\<bar>0 :: real\<bar> \<le> 1" "\<bar>1 :: real\<bar> \<le> 1"
    by auto
  show ?thesis
    using s h(2-5) two e(1) gm m d(1) e(4) v d(2) t by (intro conjI)
qed

text \<open>
  C6. The claim that \<open>getAwakeTime\<close> returns NaN only when no call of \<open>sleep\<close> has run
  since the reset fails after 4294967296 calls: the cycle count, an \<open>unsigned int\<close>, is
  zero again. The 1 kHz loop on the millisecond clock gets there in under fifty days.
\<close>

theorem accessor_wraparound_counterexample:
  "length (ticks 0 (2 ^ 32)) = 2 ^ 32 \<and>
   map_option getAwakeTime (sleeps (ticks 0 (2 ^ 32)) (reset (tick 0) loop1000)) = Some NaN"
proof -
  have "stepTime (reset (tick 0) loop1000) = tick 0"
    "sleepEndTime (reset (tick 0) loop1000) = tick 0"
    "timeStep (reset (tick 0) loop1000) = Finite (1 / 1000)"
    by (simp_all add: eval_defs loop1000_def)
  moreover have "(0::nat) + 2 ^ 32 < 2 ^ 40" by simp
  ultimately obtain r' where
    r': "sleeps (ticks 0 (2 ^ 32)) (reset (tick 0) loop1000) = Some r'"
      "numTimeSteps r' = numTimeSteps (reset (tick 0) loop1000) + of_nat (2 ^ 32)"
    using sleeps_ticks by blast
  have "numTimeSteps r' = 0"
    unfolding r'(2) by (simp add: reset_def)
  then have "getAwakeTime r' = NaN"
    by (simp add: getAwakeTime_def)
  then show ?thesis
    unfolding r'(1) length_ticks by simp
qed

text \<open>
  C6, as the code has it. After \<open>reset\<close> and fewer than 4294967296 calls of \<open>sleep\<close>
  that all have a result: \<open>getAwakeTime\<close> and \<open>getAwakeTimeMean\<close> return NaN exactly when
  there was no call; after exactly one call, whose first clock sample is not before the
  sample of the reset, \<open>getAwakeTime\<close> is finite and not negative; \<open>getAwakeTimeVar\<close>
  returns NaN exactly when there was at most one call, and otherwise
  \<open>awakeTimeM2 / (numTimeSteps - 1)\<close>, finite and not negative;
  \<open>getAwakeTimeStdDev\<close> is the square root of \<open>getAwakeTimeVar\<close>. The accessors are
  functions of the state and return no state: they have no effect on it.
\<close>

theorem accessor_nan_semantics:
  assumes "sleeps cs (reset now r) = Some r'" and "length cs < 2 ^ 32"
  shows "(isnan (getAwakeTime r') \<longleftrightarrow> cs = []) \<and>
    (isnan (getAwakeTimeMean r') \<longleftrightarrow> cs = []) \<and>
    (length cs = 1 \<and> to_ns now \<le> to_ns (fst (hd cs)) \<longrightarrow>
       isfinite (getAwakeTime r') \<and> dle (Finite 0) (getAwakeTime r')) \<and>
    (isnan (getAwakeTimeVar r') \<longleftrightarrow> length cs \<le> 1) \<and>
    (1 < length cs \<longrightarrow>
       getAwakeTimeVar r' = ddiv (awakeTimeM2 r') (double_of_uint (numTimeSteps r' - 1)) \<and>
       isfinite (getAwakeTimeVar r') \<and> dle (Finite 0) (getAwakeTimeVar r')) \<and>
    getAwakeTimeStdDev r' = dsqrt (getAwakeTimeVar r')"
proof -
  have l: "0 + length cs < 2 ^ 32" using assms(2) by simp
  from sleeps_statistics[OF assms(1) _ l] have
    n: "numTimeSteps r' = of_nat (length cs)" and
    f: "isfinite (awakeTime r')" "isfinite (awakeTimeMean r')" "isfinite (awakeTimeM2 r')" and
    p: "dle (Finite 0) (awakeTimeM2 r')"
    by (simp_all add: reset_statistics)
  have z: "numTimeSteps r' = 0 \<longleftrightarrow> cs = []"
    using of_nat_32_eq_0[OF assms(2)] by (simp add: n)
  have nan: "\<not> isnan (awakeTime r')" "\<not> isnan (awakeTimeMean r')"
    using f(1,2) by (cases "awakeTime r'"; cases "awakeTimeMean r'"; simp)+
  have c1: "isnan (getAwakeTime r') \<longleftrightarrow> cs = []"
    and c2: "isnan (getAwakeTimeMean r') \<longleftrightarrow> cs = []"
    using z nan by (simp_all add: getAwakeTime_def getAwakeTimeMean_def)
  have c3: "isfinite (getAwakeTime r') \<and> dle (Finite 0) (getAwakeTime r')"
    if one: "length cs = 1" and mono: "to_ns now \<le> to_ns (fst (hd cs))"
  proof -
    from one obtain c where cs: "cs = [c]"
      by (cases cs) auto
    from assms(1) obtain diags out where
      s: "sleep (fst c) (snd c) (reset now r) = Some (r', diags, out)"
      by (auto simp: cs split: option.splits)
    have "sleepEndTime (reset now r) = now" by (simp add: reset_def)
    with sleep_statistics(1)[OF s] mono
    have "awakeTime r' = Finite (real_of_int (to_ns (fst c) - to_ns now) / 1000000000)"
      and "0 \<le> real_of_int (to_ns (fst c) - to_ns now) / 1000000000"
      by (simp_all add: cs)
    then show ?thesis
      using z by (simp add: getAwakeTime_def cs)
  qed
  obtain q where q: "awakeTimeM2 r' = Finite q" "0 \<le> q"
    using f(3) p by (cases "awakeTimeM2 r'") auto
  have u: "unat (numTimeSteps r') = length cs"
    using assms(2) by (simp add: n unat_of_nat take_bit_nat_eq_self)
  have le1: "numTimeSteps r' \<le> 1 \<longleftrightarrow> length cs \<le> 1"
    by (simp add: word_le_nat_alt u)
  have var: "getAwakeTimeVar r' = Finite (q / (real (length cs) - 1))" if "1 < length cs"
    using getAwakeTimeVar_of_nat[OF n _ assms(2) q(1)] that by simp
  have c4: "isnan (getAwakeTimeVar r') \<longleftrightarrow> length cs \<le> 1"
  proof (cases "length cs \<le> 1")
    case True
    then show ?thesis using le1 by (simp add: getAwakeTimeVar_def)
  next
    case False
    then show ?thesis using var by simp
  qed
  have c5: "getAwakeTimeVar r' = ddiv (awakeTimeM2 r') (double_of_uint (numTimeSteps r' - 1)) \<and>
       isfinite (getAwakeTimeVar r') \<and> dle (Finite 0) (getAwakeTimeVar r')" if "1 < length cs"
  proof -
    have "\<not> numTimeSteps r' \<le> 1" using le1 that by simp
    then have "getAwakeTimeVar r' = ddiv (awakeTimeM2 r') (double_of_uint (numTimeSteps r' - 1))"
      by (simp add: getAwakeTimeVar_def)
    moreover have "0 \<le> q / (real (length cs) - 1)"
      using q(2) that by simp
    then have "isfinite (getAwakeTimeVar r') \<and> dle (Finite 0) (getAwakeTimeVar r')"
      by (simp add: var[OF that])
    ultimately show ?thesis by simp
  qed
  show ?thesis
    using c1 c2 c3 c4 c5 unfolding getAwakeTimeStdDev_def by blast
qed

theorem accessor_nan_semantics_witness:
  "sleeps trace4 (reset \<lparr>tv_sec = 5, tv_nsec = 0\<rparr> loop4) = Some trace4_result \<and>
   length trace4 = 2 \<and> trace4 \<noteq> [] \<and>
   \<not> isnan (getAwakeTime trace4_result) \<and> \<not> isnan (getAwakeTimeMean trace4_result) \<and>
   \<not> isnan (getAwakeTimeVar trace4_result) \<and>
   getAwakeTimeVar trace4_result = Finite (1 / 800) \<and>
   isfinite (getAwakeTimeVar trace4_result) \<and> dle (Finite 0) (getAwakeTimeVar trace4_result) \<and>
   getAwakeTimeStdDev trace4_result = dsqrt (getAwakeTimeVar trace4_result)"
proof -
  have l: "length trace4 = 2" "length trace4 < 2 ^ 32" "trace4 \<noteq> []"
    by (simp_all add: trace4_def)
  have v: "ddiv (awakeTimeM2 trace4_result) (double_of_uint (numTimeSteps trace4_result - 1))
      = Finite (1 / 800)"
    by (simp add: trace4_result_def double_of_uint_def)
  from accessor_nan_semantics[OF sleeps_trace4 l(2)] sleeps_trace4 l v
  show ?thesis by simp
qed

text \<open>
  C7. The claim that every call with a valid time step leaves the step time where it was
  or later fails for a time step whose nanoseconds do not fit a \<open>long\<close>. For the rate of
  \<open>10^10\<close> seconds the product is the double \<open>10^19\<close>, more than the greatest \<open>long\<close>:
  the conversion of the sum is undefined and the call has no result, so nothing keeps the
  step time from going back. Where the conversion yields the least \<open>long\<close>, as it does
  on x86-64 processors, the two assignments that follow leave the step time at
  -9223372031 s and -854775808 ns.
\<close>

theorem rewind_counterexample:
  "TimeStepIsValid (timeStep long_loop) \<and> timeStep long_loop = Finite 10000000000 \<and>
   stepTime long_loop = \<lparr>tv_sec = 5, tv_nsec = 0\<rparr> \<and>
   step_ns (timeStep long_loop) = Finite 10000000000000000000 \<and>
   \<not> in_long 10000000000000000000 \<and>
   nextStepTime (timeStep long_loop) (stepTime long_loop) = None \<and>
   sleep \<lparr>tv_sec = 5, tv_nsec = 250000000\<rparr> \<lparr>tv_sec = 5, tv_nsec = 250001000\<rparr> long_loop = None \<and>
   tv_sec (stepTime long_loop) + cdiv (- (2 ^ 63)) NSecPerSec = - 9223372031 \<and>
   crem (- (2 ^ 63)) NSecPerSec = - 854775808 \<and>
   to_ns \<lparr>tv_sec = - 9223372031, tv_nsec = - 854775808\<rparr> < to_ns (stepTime long_loop)"
proof -
  have h: "timeStep long_loop = Finite 10000000000"
    "stepTime long_loop = \<lparr>tv_sec = 5, tv_nsec = 0\<rparr>"
    by (simp_all add: eval_defs)
  have n: "normalized (stepTime long_loop)"
    by (simp add: h normalized_def NSecPerSec_def)
  have "nextStepTime (Finite 10000000000) (stepTime long_loop) = None"
    using n by (intro nextStepTime_overflow) simp_all
  moreover have "sleep \<lparr>tv_sec = 5, tv_nsec = 250000000\<rparr> \<lparr>tv_sec = 5, tv_nsec = 250001000\<rparr>
      long_loop = None"
    using h(1) _ n by (rule sleep_overflow) simp
  moreover have "tv_sec (stepTime long_loop) + cdiv (- (2 ^ 63)) NSecPerSec = - 9223372031"
    "crem (- (2 ^ 63)) NSecPerSec = - 854775808"
    "to_ns \<lparr>tv_sec = - 9223372031, tv_nsec = - 854775808\<rparr> < to_ns (stepTime long_loop)"
    by (simp_all add: h cdiv_def crem_def NSecPerSec_def to_ns_def)
  ultimately show ?thesis
    using h by (simp add: step_ns_long TimeStepIsValid_def in_long_def)
qed

text \<open>
  C7, as the code has it. With a valid time step and a normalized stored step time, a
  call of \<open>sleep\<close> that has a result does not move the step time back, and neither do
  consecutive calls on a clock with normalized samples. A call has a result whenever the
  time step is at most 9223372035 seconds and the timestamps are in range; it has none
  when the time step is 9223372037 seconds or more. The setters leave the step time alone,
  and \<open>reset\<close> puts the clock sample there, whatever it held.
\<close>

theorem stepTime_never_rewound:
  assumes "TimeStepIsValid (timeStep r)" and "normalized (stepTime r)"
  shows "(sleep now1 now2 r = Some (r', diags, out) \<longrightarrow>
       to_ns (stepTime r) \<le> to_ns (stepTime r')) \<and>
    (dle (timeStep r) (Finite 9223372035) \<and> in_range (stepTime r) \<and>
     in_range (sleepEndTime r) \<and> in_range now1 \<and> in_range now2 \<longrightarrow>
       (case sleep now1 now2 r of
          None \<Rightarrow> False
        | Some res \<Rightarrow> to_ns (stepTime r) \<le> to_ns (stepTime (fst res)))) \<and>
    (dle (Finite 9223372037) (timeStep r) \<longrightarrow> sleep now1 now2 r = None) \<and>
    (sleeps cs r = Some r'' \<and> normal_samples cs \<longrightarrow>
       to_ns (stepTime r) \<le> to_ns (stepTime r'')) \<and>
    stepTime (fst (setTimeStep ts r)) = stepTime r \<and>
    stepTime (fst (setMaxTimeStepWarning m r)) = stepTime r \<and>
    stepTime (fst (setMaxTimeStepError m r)) = stepTime r \<and>
    stepTime (setEnforceRate e r) = stepTime r \<and>
    stepTime (reset now r) = now"
proof -
  from assms(1) obtain x where x: "timeStep r = Finite x" "0 \<le> x"
    by (auto simp: TimeStepIsValid_iff)
  have a: "to_ns (stepTime r) \<le> to_ns (stepTime r')"
    if "sleep now1 now2 r = Some (r', diags, out)"
    using that assms by (rule sleep_stepTime_forward)
  have b: "case sleep now1 now2 r of
          None \<Rightarrow> False
        | Some res \<Rightarrow> to_ns (stepTime r) \<le> to_ns (stepTime (fst res))"
    if "dle (timeStep r) (Finite 9223372035)" "in_range (stepTime r)"
      "in_range (sleepEndTime r)" "in_range now1" "in_range now2"
  proof -
    have "x \<le> 9223372035" using that(1) by (simp add: x(1))
    from sleep_defined[OF x this that(3,2,4,5)] obtain res where
      res: "sleep now1 now2 r = Some res" by blast
    then have "sleep now1 now2 r = Some (fst res, fst (snd res), snd (snd res))"
      by simp
    from sleep_stepTime_forward[OF this assms] res show ?thesis by simp
  qed
  have c: "sleep now1 now2 r = None" if "dle (Finite 9223372037) (timeStep r)"
  proof -
    have "9223372037 \<le> x" using that by (simp add: x(1))
    with x(1) show ?thesis using assms(2) by (rule sleep_overflow)
  qed
  have d: "to_ns (stepTime r) \<le> to_ns (stepTime r'')"
    if "sleeps cs r = Some r''" "normal_samples cs"
    using sleeps_stepTime_normalized[OF that(1) assms that(2)] by simp
  have e: "stepTime (fst (setTimeStep ts r)) = stepTime r \<and>
    stepTime (fst (setMaxTimeStepWarning m r)) = stepTime r \<and>
    stepTime (fst (setMaxTimeStepError m r)) = stepTime r \<and>
    stepTime (setEnforceRate e r) = stepTime r \<and>
    stepTime (reset now r) = now"
    by (simp add: setTimeStep_def setMaxTimeStepWarning_def setMaxTimeStepError_def
        setEnforceRate_def reset_def)
  from a b c d e show ?thesis by blast
qed

theorem stepTime_never_rewound_witness:
  "TimeStepIsValid (timeStep loop4) \<and> normalized (stepTime loop4) \<and>
   sleep \<lparr>tv_sec = 5, tv_nsec = 250000000\<rparr> \<lparr>tv_sec = 5, tv_nsec = 250001000\<rparr> loop4 =
     Some slip_result \<and>
   dle (timeStep loop4) (Finite 9223372035) \<and> in_range (stepTime loop4) \<and>
   in_range (sleepEndTime loop4) \<and> in_range \<lparr>tv_sec = 5, tv_nsec = 250000000\<rparr> \<and>
   in_range \<lparr>tv_sec = 5, tv_nsec = 250001000\<rparr> \<and>
   sleeps trace4 loop4 = Some trace4_result \<and> normal_samples trace4 \<and>
   stepTime loop4 = \<lparr>tv_sec = 5, tv_nsec = 0\<rparr> \<and>
   stepTime (fst slip_result) = \<lparr>tv_sec = 5, tv_nsec = 250001000\<rparr> \<and>
   to_ns (stepTime loop4) \<le> to_ns (stepTime (fst slip_result)) \<and>
   to_ns (stepTime loop4) \<le> to_ns (stepTime trace4_result) \<and>
   TimeStepIsValid (timeStep long_loop) \<and> normalized (stepTime long_loop) \<and>
   dle (Finite 9223372037) (timeStep long_loop) \<and>
   sleep \<lparr>tv_sec = 5, tv_nsec = 250000000\<rparr> \<lparr>tv_sec = 5, tv_nsec = 250001000\<rparr> long_loop = None"
proof -
  have v: "TimeStepIsValid (timeStep loop4)" "normalized (stepTime loop4)"
    "dle (timeStep loop4) (Finite 9223372035)" "in_range (stepTime loop4)"
    "in_range (sleepEndTime loop4)" "in_range \<lparr>tv_sec = 5, tv_nsec = 250000000\<rparr>"
    "in_range \<lparr>tv_sec = 5, tv_nsec = 250001000\<rparr>" "normal_samples trace4"
    by (simp_all add: eval_defs in_range_def normalized_def normal_samples_def trace4_def)
  have w: "TimeStepIsValid (timeStep long_loop)" "normalized (stepTime long_loop)"
    "dle (Finite 9223372037) (timeStep long_loop)"
    by (simp_all add: eval_defs normalized_def)
  have t: "sleeps trace4 loop4 = Some trace4_result"
    using sleeps_trace4 by (simp add: eval_defs)
  have "stepTime loop4 = \<lparr>tv_sec = 5, tv_nsec = 0\<rparr>"
    and "stepTime (fst slip_result) = \<lparr>tv_sec = 5, tv_nsec = 250001000\<rparr>"
    by (simp_all add: eval_defs slip_result_def)
  with stepTime_never_rewound[OF v(1,2), of "\<lparr>tv_sec = 5, tv_nsec = 250000000\<rparr>"
      "\<lparr>tv_sec = 5, tv_nsec = 250001000\<rparr>" "fst slip_result" "fst (snd slip_result)"
      "snd (snd slip_result)" trace4 trace4_result]
    stepTime_never_rewound[OF w(1,2), of "\<lparr>tv_sec = 5, tv_nsec = 250000000\<rparr>"
      "\<lparr>tv_sec = 5, tv_nsec = 250001000\<rparr>"]
    sleep_slip v w t
  show ?thesis
    by (simp add: prod_eq_iff)
qed



text \<open>
  C9. The claim that a diagnostic of \<open>sleep\<close> carries the threshold that was exceeded
  fails: the number after the awake time is the time step. The 1024 Hz loop, whose error
  threshold is ten time steps, writes its time step into the error diagnostic.
\<close>

theorem diagnostic_threshold_counterexample:
  "sleep \<lparr>tv_sec = 102, tv_nsec = 0\<rparr> \<lparr>tv_sec = 102, tv_nsec = 100\<rparr> loop1024 =
     Some overrun_result \<and>
   map fst (fst (snd overrun_result)) = [Error] \<and>
   maxTimeStepError loop1024 = Finite (5 / 512) \<and>
   timeStep loop1024 = Finite (1 / 1024) \<and>
   Number (maxTimeStepError loop1024) \<notin> set (concat (map snd (fst (snd overrun_result)))) \<and>
   Number (timeStep loop1024) \<in> set (concat (map snd (fst (snd overrun_result))))"
  using sleep_overrun by (simp add: eval_defs overrun_result_def)

text \<open>
  C9, as the code has it. A call of \<open>sleep\<close> writes at most one diagnostic, and every
  diagnostic it writes consists of the name of the rate, the awake time of the cycle and
  the time step, in the text of the source. Writing a diagnostic is no way out of the
  call: whether the call has a result does not depend on the two thresholds.
\<close>

theorem sleep_diagnostic_content:
  assumes "sleep now1 now2 r = Some (r', diags, out)"
  shows "length diags \<le> 1 \<and>
    (\<forall>d \<in> set diags.
       snd d = [Text (''Rate '' @ [CHR 0x27]), Text (name r), Text (CHR 0x27 # '': ''),
                Text ''Processing took too long ('', Number (awakeTime r'), Text '' s > '',
                Number (timeStep r), Text '' s).'']) \<and>
    sleep now1 now2 (r\<lparr>maxTimeStepWarning := w, maxTimeStepError := e\<rparr>) \<noteq> None"
proof -
  from assms obtain awake "next" d where
    a: "GetDuration (sleepEndTime r) now1 = Some awake" and
    n: "nextStepTime (timeStep r) (stepTime r) = Some next" and
    d: "GetDuration now2 next = Some d" and
    r': "r' = fst (policy now2 next d (fst (measured now1 awake r)))" and
    diags: "diags = snd (measured now1 awake r)"
    by (rule sleep_SomeD)
  have aw: "awakeTime r' = awake"
    by (simp add: r' policy_fields measured_fields)
  have "length diags \<le> 1 \<and>
    (\<forall>d \<in> set diags.
       snd d = [Text (''Rate '' @ [CHR 0x27]), Text (name r), Text (CHR 0x27 # '': ''),
                Text ''Processing took too long ('', Number awake, Text '' s > '',
                Number (timeStep r), Text '' s).''])"
    by (simp add: diags measured_def checkThresholds_def tooLong_def updateStatistics_fields)
  moreover have "sleep now1 now2 (r\<lparr>maxTimeStepWarning := w, maxTimeStepError := e\<rparr>) \<noteq> None"
    by (simp add: sleep_unfold a n d)
  ultimately show ?thesis
    by (simp add: aw)
qed

theorem sleep_diagnostic_content_witness:
  "sleep \<lparr>tv_sec = 5, tv_nsec = 250000000\<rparr> \<lparr>tv_sec = 5, tv_nsec = 250001000\<rparr> loop4 =
     Some slip_result \<and>
   fst (snd slip_result) =
     [(Warn, [Text (''Rate '' @ [CHR 0x27]), Text (name loop4), Text (CHR 0x27 # '': ''),
              Text ''Processing took too long ('', Number (awakeTime (fst slip_result)),
              Text '' s > '', Number (timeStep loop4), Text '' s).''])] \<and>
   sleep \<lparr>tv_sec = 5, tv_nsec = 250000000\<rparr> \<lparr>tv_sec = 5, tv_nsec = 250001000\<rparr>
     (loop4\<lparr>maxTimeStepWarning := PInf, maxTimeStepError := PInf\<rparr>) \<noteq> None"
proof -
  have "fst (snd slip_result) \<noteq> []" "length (fst (snd slip_result)) = 1"
    "fst (hd (fst (snd slip_result))) = Warn"
    by (simp_all add: slip_result_def)
  with sleep_diagnostic_content[OF sleep_slip, of PInf PInf] sleep_slip show ?thesis
    by (cases "fst (snd slip_result)") (auto simp: prod_eq_iff)
qed

text \<open>
  C10. The claim that a valid time step keeps the step time in normal form fails where
  the nanoseconds of the time step do not fit a \<open>long\<close>. The rate of 9223372037 seconds
  has the least whole number of seconds for which they do not: on normalized timestamps
  the conversion of the sum is undefined and the call has no result, so the step time it
  leaves need not be in normal form. Where the conversion yields the least \<open>long\<close>, as
  it does on x86-64 processors, the remainder leaves \<open>tv_nsec\<close> at -854775808.
\<close>

theorem normal_form_counterexample:
  "TimeStepIsValid (timeStep edge_loop) \<and> timeStep edge_loop = Finite 9223372037 \<and>
   normalized (stepTime edge_loop) \<and> normalized \<lparr>tv_sec = 6, tv_nsec = 0\<rparr> \<and>
   normalized \<lparr>tv_sec = 6, tv_nsec = 100\<rparr> \<and>
   \<not> in_long (9223372037 * NSecPerSec) \<and>
   nextStepTime (timeStep edge_loop) (stepTime edge_loop) = None \<and>
   sleep \<lparr>tv_sec = 6, tv_nsec = 0\<rparr> \<lparr>tv_sec = 6, tv_nsec = 100\<rparr> edge_loop = None \<and>
   crem (- (2 ^ 63)) NSecPerSec = - 854775808 \<and>
   \<not> normalized \<lparr>tv_sec = - 9223372031, tv_nsec = - 854775808\<rparr>"
proof -
  have h: "timeStep edge_loop = Finite 9223372037"
    "stepTime edge_loop = \<lparr>tv_sec = 5, tv_nsec = 0\<rparr>"
    by (simp_all add: eval_defs)
  have n: "normalized (stepTime edge_loop)"
    by (simp add: h normalized_def NSecPerSec_def)
  have "nextStepTime (Finite 9223372037) (stepTime edge_loop) = None"
    using n by (intro nextStepTime_overflow) simp_all
  moreover have "sleep \<lparr>tv_sec = 6, tv_nsec = 0\<rparr> \<lparr>tv_sec = 6, tv_nsec = 100\<rparr> edge_loop = None"
    using h(1) _ n by (rule sleep_overflow) simp
  moreover have "crem (- (2 ^ 63)) NSecPerSec = - 854775808"
    by (simp add: cdiv_def crem_def NSecPerSec_def)
  ultimately show ?thesis
    using h by (simp add: TimeStepIsValid_def in_long_def normalized_def NSecPerSec_def)
qed

text \<open>
  C10, as the code has it. \<open>reset\<close> stores the clock sample, so a normalized sample gives
  a normalized step time. A call of \<open>sleep\<close> on a normalized step time, with a valid time
  step and a normalized second clock sample, leaves a normalized step time when it has a
  result, through the carry of the nanoseconds into the seconds as well as through the
  assignment of the clock sample. It has a result whenever the time step is at most
  9223372035 seconds and the timestamps are in range, and none when the time step is
  9223372037 seconds or more. So after \<open>reset\<close> and any number of calls that all have a
  result, on a clock with normalized samples, the step time is in normal form.
\<close>

theorem stepTime_stays_normalized:
  "(normalized now \<longrightarrow> normalized (stepTime (reset now r))) \<and>
   (TimeStepIsValid (timeStep r) \<and> normalized (stepTime r) \<and> normalized now2 \<longrightarrow>
      (sleep now1 now2 r = Some (r', diags, out) \<longrightarrow> normalized (stepTime r')) \<and>
      (dle (timeStep r) (Finite 9223372035) \<and> in_range (stepTime r) \<and>
       in_range (sleepEndTime r) \<and> in_range now1 \<and> in_range now2 \<longrightarrow>
         (case sleep now1 now2 r of
            None \<Rightarrow> False
          | Some res \<Rightarrow> normalized (stepTime (fst res)))) \<and>
      (dle (Finite 9223372037) (timeStep r) \<longrightarrow> sleep now1 now2 r = None)) \<and>
   (TimeStepIsValid (timeStep r) \<and> normalized now \<and> normal_samples cs \<and>
    sleeps cs (reset now r) = Some r'' \<longrightarrow> normalized (stepTime r''))"
proof -
  have a: "normalized (stepTime (reset now r))" if "normalized now"
    using that by (simp add: reset_def)
  have b: "normalized (stepTime r')"
    if "TimeStepIsValid (timeStep r)" "normalized (stepTime r)" "normalized now2"
      "sleep now1 now2 r = Some (r', diags, out)"
    using that(4,1,2,3) by (rule sleep_stepTime_normalized)
  have c: "case sleep now1 now2 r of
            None \<Rightarrow> False
          | Some res \<Rightarrow> normalized (stepTime (fst res))"
    if v: "TimeStepIsValid (timeStep r)" "normalized (stepTime r)" "normalized now2"
      and "dle (timeStep r) (Finite 9223372035)" "in_range (stepTime r)"
      "in_range (sleepEndTime r)" "in_range now1" "in_range now2"
  proof -
    from v(1) obtain x where x: "timeStep r = Finite x" "0 \<le> x"
      by (auto simp: TimeStepIsValid_iff)
    have "x \<le> 9223372035" using that(4) by (simp add: x(1))
    from sleep_defined[OF x this that(6,5,7,8)] obtain res where
      res: "sleep now1 now2 r = Some res" by blast
    then have "sleep now1 now2 r = Some (fst res, fst (snd res), snd (snd res))"
      by simp
    from sleep_stepTime_normalized[OF this v] res show ?thesis by simp
  qed
  have d: "sleep now1 now2 r = None"
    if v: "TimeStepIsValid (timeStep r)" "normalized (stepTime r)"
      and "dle (Finite 9223372037) (timeStep r)"
  proof -
    from v(1) obtain x where x: "timeStep r = Finite x" "0 \<le> x"
      by (auto simp: TimeStepIsValid_iff)
    have "9223372037 \<le> x" using that(3) by (simp add: x(1))
    with x(1) show ?thesis using v(2) by (rule sleep_overflow)
  qed
  have e: "normalized (stepTime r'')"
    if "TimeStepIsValid (timeStep r)" "normalized now" "normal_samples cs"
      "sleeps cs (reset now r) = Some r''"
  proof -
    have "TimeStepIsValid (timeStep (reset now r))" "normalized (stepTime (reset now r))"
      using that(1,2) by (simp_all add: reset_def)
    from sleeps_stepTime_normalized[OF that(4) this that(3)] show ?thesis by simp
  qed
  from a b c d e show ?thesis by blast
qed

theorem stepTime_stays_normalized_witness:
  "normalized \<lparr>tv_sec = 100, tv_nsec = 999999000\<rparr> \<and>
   normalized (stepTime (reset \<lparr>tv_sec = 100, tv_nsec = 999999000\<rparr> loop1024)) \<and>
   TimeStepIsValid (timeStep loop1024) \<and> normalized (stepTime loop1024) \<and>
   normalized \<lparr>tv_sec = 102, tv_nsec = 100\<rparr> \<and>
   sleep \<lparr>tv_sec = 102, tv_nsec = 0\<rparr> \<lparr>tv_sec = 102, tv_nsec = 100\<rparr> loop1024 =
     Some overrun_result \<and>
   dle (timeStep loop1024) (Finite 9223372035) \<and> in_range (stepTime loop1024) \<and>
   in_range (sleepEndTime loop1024) \<and> in_range \<lparr>tv_sec = 102, tv_nsec = 0\<rparr> \<and>
   in_range \<lparr>tv_sec = 102, tv_nsec = 100\<rparr> \<and>
   stepTime (fst overrun_result) = \<lparr>tv_sec = 101, tv_nsec = 975562\<rparr> \<and>
   normalized (stepTime (fst overrun_result)) \<and>
   normal_samples trace1024 \<and>
   map_option stepTime (sleeps trace1024 (reset \<lparr>tv_sec = 100, tv_nsec = 999999000\<rparr> loop1024)) =
     Some \<lparr>tv_sec = 101, tv_nsec = 3905248\<rparr> \<and>
   normalized \<lparr>tv_sec = 101, tv_nsec = 3905248\<rparr> \<and>
   TimeStepIsValid (timeStep edge_loop) \<and> normalized (stepTime edge_loop) \<and>
   dle (Finite 9223372037) (timeStep edge_loop) \<and>
   sleep \<lparr>tv_sec = 102, tv_nsec = 0\<rparr> \<lparr>tv_sec = 102, tv_nsec = 100\<rparr> edge_loop = None"
proof -
  have h: "normalized \<lparr>tv_sec = 100, tv_nsec = 999999000\<rparr>"
    "TimeStepIsValid (timeStep loop1024)" "normalized (stepTime loop1024)"
    "normalized \<lparr>tv_sec = 102, tv_nsec = 100\<rparr>"
    "dle (timeStep loop1024) (Finite 9223372035)" "in_range (stepTime loop1024)"
    "in_range (sleepEndTime loop1024)" "in_range \<lparr>tv_sec = 102, tv_nsec = 0\<rparr>"
    "in_range \<lparr>tv_sec = 102, tv_nsec = 100\<rparr>" "normal_samples trace1024"
    by (simp_all add: eval_defs normalized_def in_range_def normal_samples_def trace1024_def)
  have w: "TimeStepIsValid (timeStep edge_loop)" "normalized (stepTime edge_loop)"
    "dle (Finite 9223372037) (timeStep edge_loop)"
    by (simp_all add: eval_defs normalized_def)
  have s: "stepTime (fst overrun_result) = \<lparr>tv_sec = 101, tv_nsec = 975562\<rparr>"
    by (simp add: overrun_result_def)
  obtain r4 where r4: "sleeps trace1024 (reset \<lparr>tv_sec = 100, tv_nsec = 999999000\<rparr> loop1024) = Some r4"
    "stepTime r4 = \<lparr>tv_sec = 101, tv_nsec = 3905248\<rparr>"
    by (simp add: eval_defs eval_next trace1024_def)
  from stepTime_stays_normalized[of "\<lparr>tv_sec = 100, tv_nsec = 999999000\<rparr>" loop1024
      "\<lparr>tv_sec = 102, tv_nsec = 100\<rparr>" "\<lparr>tv_sec = 102, tv_nsec = 0\<rparr>"
      "fst overrun_result" "fst (snd overrun_result)" "snd (snd overrun_result)" trace1024 r4]
    stepTime_stays_normalized[of "\<lparr>tv_sec = 100, tv_nsec = 999999000\<rparr>" edge_loop
      "\<lparr>tv_sec = 102, tv_nsec = 100\<rparr>" "\<lparr>tv_sec = 102, tv_nsec = 0\<rparr>"]
    h w s r4 sleep_overrun
  show ?thesis by (simp add: prod_eq_iff)
qed

end
